theory Spec2Isabelle
  imports Main "HOL-Library.Sublist"
begin

chapter \<open>The segmented download engine of INDM\<close>

text \<open>
  A model of the class \<^verbatim>\<open>Downloader\<close> of \<^verbatim>\<open>src/src/downloader.ts\<close>: the derivation of the file
  name, the constructor, the chunk planner, the segment worker with its retry supervisor,
  the progress reports, the resume record, and the controller \<^verbatim>\<open>start()\<close> with \<^verbatim>\<open>pause()\<close>.
  The network, the file system, the clock and the caller are inputs of the model; what
  the downloader does to them is logged in its state.
\<close>

section \<open>File names (src/src/downloader.ts, lines 89-108)\<close>

text \<open>
  JavaScript strings are modelled as \<^typ>\<open>string\<close>: one \<^typ>\<open>char\<close> per code unit, so
  \<open>name.length\<close> is \<^const>\<open>length\<close>. Every character test of the source is on ASCII.
\<close>

text \<open>The character class \<^verbatim>\<open>[a-zA-Z0-9._-]\<close> of the regular expression in line 101.\<close>

definition safe_char :: "char \<Rightarrow> bool" where
  "safe_char c \<longleftrightarrow>
     c \<in> set (''abcdefghijklmnopqrstuvwxyz'' @ ''ABCDEFGHIJKLMNOPQRSTUVWXYZ'' @
              ''0123456789'' @ ''._-'')"

text \<open>\<^verbatim>\<open>name.replace(/[^a-zA-Z0-9._-]/g, '_')\<close>: every code unit outside the class becomes
  an underscore, the others stay where they are.\<close>

definition replace_unsafe :: "string \<Rightarrow> string" where
  "replace_unsafe name = map (\<lambda>c. if safe_char c then c else CHR ''_'') name"

subsection \<open>Node's \<^verbatim>\<open>path\<close> module (POSIX flavour), as far as the downloader calls it\<close>

text \<open>
  \<^verbatim>\<open>path.basename\<close> and \<^verbatim>\<open>path.extname\<close> are library functions of the runtime. They scan the
  path from its end: trailing slashes are skipped, the last component runs back to the
  previous slash.
\<close>

definition trailing_slashes :: "string \<Rightarrow> string" where
  "trailing_slashes p = takeWhile (\<lambda>c. c = CHR ''/'') (rev p)"

definition last_component :: "string \<Rightarrow> string" where
  "last_component p =
     rev (takeWhile (\<lambda>c. c \<noteq> CHR ''/'') (dropWhile (\<lambda>c. c = CHR ''/'') (rev p)))"

text \<open>\<^verbatim>\<open>path.basename(p)\<close>: the last component, the empty string when there is none.\<close>

definition path_basename :: "string \<Rightarrow> string" where
  "path_basename p = last_component p"

text \<open>
  \<^verbatim>\<open>path.extname(p)\<close>: from the last dot of the last component to its end; empty when the
  component has no dot, when its last dot is its first character, and when the component
  is \<^verbatim>\<open>..\<close>.
\<close>

definition path_extname :: "string \<Rightarrow> string" where
  "path_extname p =
     (let comp = last_component p;
          startDot = length comp - Suc (length (takeWhile (\<lambda>c. c \<noteq> CHR ''.'') (rev comp)))
      in if CHR ''.'' \<notin> set comp then []
         else if startDot = 0 then []
         else if comp = ''..'' then []
         else drop startDot comp)"

text \<open>
  \<^verbatim>\<open>path.basename(p, suffix)\<close>. With an empty suffix or one longer than the path it is
  \<^verbatim>\<open>path.basename(p)\<close>; a suffix equal to the whole path gives the empty string. Otherwise
  the suffix is compared with the end of the last component: a component that ends with
  the suffix and is longer loses it, a component equal to the suffix is kept, and when
  the component is used up before the suffix is (or there is no component at all) the
  function returns the rest of the path from the component on, trailing slashes included.
\<close>

definition path_basename_suffix :: "string \<Rightarrow> string \<Rightarrow> string" where
  "path_basename_suffix p sfx =
     (if sfx = [] \<or> length p < length sfx then path_basename p
      else if sfx = p then []
      else let comp = last_component p in
        if suffix sfx comp then
          (if sfx = comp then comp else take (length comp - length sfx) comp)
        else if suffix comp sfx then comp @ trailing_slashes p
        else comp)"

subsection \<open>sanitizeFileName and getFileNameFromUrl\<close>

text \<open>
  Lines 100-108. \<^verbatim>\<open>base.substring(0, 100 - ext.length)\<close> clamps a negative end to 0, which
  is what truncated subtraction on \<^typ>\<open>nat\<close> does in \<^const>\<open>take\<close>.
\<close>

definition sanitizeFileName :: "string \<Rightarrow> string" where
  "sanitizeFileName name0 =
     (let name = replace_unsafe name0 in
      if length name > 100 then
        (let ext = path_extname name;
             base = path_basename_suffix name ext
         in take (100 - length ext) base @ ext)
      else name)"

text \<open>
  Lines 89-98. The WHATWG URL parser behind \<^verbatim>\<open>new URL(url)\<close> is a parameter: \<open>url_pathname\<close>
  gives the \<^verbatim>\<open>pathname\<close> of the parsed URL, or \<^const>\<open>None\<close> where the constructor throws
  (which the source catches).
\<close>

definition getFileNameFromUrl :: "(string \<Rightarrow> string option) \<Rightarrow> string \<Rightarrow> string" where
  "getFileNameFromUrl url_pathname url =
     (case url_pathname url of
        None \<Rightarrow> ''downloaded_file''
      | Some pathname \<Rightarrow>
          (let name = path_basename pathname;
               name' = (if name = [] \<or> name = ''/'' then ''downloaded_file'' else name)
           in sanitizeFileName name'))"


section \<open>The downloader object (lines 8-87, 189-209)\<close>

text \<open>
  JavaScript numbers are modelled as \<^typ>\<open>int\<close> (byte counts, sizes, offsets) and
  \<^typ>\<open>nat\<close> (buffer lengths, clock readings in milliseconds); fractions are outside the
  model. An element of the progress vector is a \<open>cell\<close>: a number, \<^verbatim>\<open>NaN\<close>, or a hole of a
  sparse array (which reads as \<^verbatim>\<open>undefined\<close>), since \<^verbatim>\<open>xs[i] += n\<close> beyond the end of an
  array extends it with holes and stores \<^verbatim>\<open>NaN\<close>.
\<close>

datatype cell = Num int | NaN | Hole

datatype js_error = RangeError | Error string

text \<open>\<^verbatim>\<open>error.message\<close> of a thrown value.\<close>

fun message :: "js_error \<Rightarrow> string" where
  "message RangeError = ''Invalid array length''"
| "message (Error m) = m"

text \<open>The interface \<^verbatim>\<open>DownloaderOptions\<close>; \<^const>\<open>None\<close> is an absent (undefined) option.\<close>

record DownloaderOptions =
  opt_numConnections :: "int option"
  opt_uuid :: "string option"
  opt_stateDir :: "string option"
  opt_fileName :: "string option"
  opt_downloadedBytesPerChunk :: "cell list option"
  opt_totalBytes :: "int option"

text \<open>The interface \<^verbatim>\<open>DownloadState\<close>, the resume record that \<^verbatim>\<open>saveState\<close> serialises.\<close>

record DownloadState =
  st_url :: string
  st_outputDir :: string
  st_fileName :: string
  st_totalBytes :: int
  st_downloadedBytesPerChunk :: "cell list"
  st_numConnections :: int
  st_uuid :: string
  st_stateDir :: string

text \<open>The events the downloader emits. The \<^verbatim>\<open>speed\<close> of a progress event is a floating-point
  quotient and is left out of the payload; \<^verbatim>\<open>downloaded\<close> is \<^const>\<open>None\<close> when the sum is
  \<^verbatim>\<open>NaN\<close>.\<close>

datatype event =
    EvStart int string string
  | EvProgress "int option" int string
  | EvPaused
  | EvComplete string
  | EvError string

text \<open>File-system calls, in the order the downloader makes them.\<close>

datatype fs_call =
    Mkdir string
  | WriteFile string DownloadState
  | OpenFile string string
  | CloseFile
  | Unlink string
  | Rename string string

text \<open>
  The fields of the class, and after them what an outside observer sees of a run: the
  events emitted, the file-system calls, the ranged requests issued (segment index, first
  and last byte of the \<^verbatim>\<open>Range\<close> header) and the positioned writes (segment index, file
  offset, length). \<open>aborted\<close> is \<^verbatim>\<open>abortController.signal.aborted\<close>. The two keep-alive
  agents and the fields the class never reads (\<^verbatim>\<open>activeConnections\<close>,
  \<^verbatim>\<open>lastTickDownloaded\<close>) and the two that only feed \<^verbatim>\<open>speed\<close> are not modelled.
\<close>

record Downloader =
  url :: string
  outputDir :: string
  numConnections :: int
  uuid :: string
  stateDir :: string
  fileName :: string
  finalFilePath :: string
  tempFilePath :: string
  stateFilePath :: string
  downloadedBytesPerChunk :: "cell list"
  totalBytes :: int
  startTime :: nat
  lastTickTime :: nat
  lastSaveTime :: nat
  isPaused :: bool
  aborted :: bool
  emitted :: "event list"
  fs_calls :: "fs_call list"
  requests :: "(nat \<times> int \<times> int) list"
  writes :: "(nat \<times> int \<times> nat) list"

text \<open>
  What the runtime supplies: \<^verbatim>\<open>path.join\<close>, and the \<^verbatim>\<open>pathname\<close> of \<^verbatim>\<open>new URL(url)\<close>
  (\<^const>\<open>None\<close> where the URL constructor throws). Both are parameters of the model.
\<close>

record platform =
  path_join :: "string \<Rightarrow> string \<Rightarrow> string"
  url_pathname :: "string \<Rightarrow> string option"

text \<open>\<^verbatim>\<open>n.toString()\<close> of a non-negative integer.\<close>

fun toString :: "nat \<Rightarrow> string" where
  "toString n =
     (if n < 10 then [''0123456789'' ! n]
      else toString (n div 10) @ [''0123456789'' ! (n mod 10)])"

declare toString.simps [simp del]

text \<open>\<^verbatim>\<open>emit\<close> appends to the observer's trace.\<close>

definition emit :: "event \<Rightarrow> Downloader \<Rightarrow> Downloader" where
  "emit e d = d\<lparr>emitted := emitted d @ [e]\<rparr>"

text \<open>Lines 83-87. (\<^verbatim>\<open>stateFilePath\<close> is not recomputed here.)\<close>

definition updatePaths :: "platform \<Rightarrow> Downloader \<Rightarrow> Downloader" where
  "updatePaths pf d =
     (let d1 = d\<lparr>finalFilePath := path_join pf (outputDir d) (fileName d)\<rparr>
      in d1\<lparr>tempFilePath := finalFilePath d1 @ ''.part''\<rparr>)"

text \<open>\<^verbatim>\<open>new Array(n).fill(0)\<close> throws a RangeError unless \<open>0 \<le> n < 2^32\<close>.\<close>

definition new_Array_fill0 :: "int \<Rightarrow> js_error + cell list" where
  "new_Array_fill0 n =
     (if 0 \<le> n \<and> n < 2 ^ 32 then Inr (replicate (nat n) (Num 0)) else Inl RangeError)"

text \<open>
  The constructor, lines 52-81; \<open>now\<close> is the reading of \<^verbatim>\<open>Date.now()\<close>. The operator \<^verbatim>\<open>||\<close>
  takes its right operand when the left one is undefined, \<^verbatim>\<open>0\<close> or the empty string; an
  array, even an empty one, is kept.
\<close>

definition new_Downloader ::
  "platform \<Rightarrow> nat \<Rightarrow> string \<Rightarrow> string \<Rightarrow> DownloaderOptions \<Rightarrow> js_error + Downloader" where
  "new_Downloader pf now u out opts =
     (let n = (case opt_numConnections opts of None \<Rightarrow> 8 | Some k \<Rightarrow> if k = 0 then 8 else k);
          uid = (case opt_uuid opts of None \<Rightarrow> toString now
                 | Some s \<Rightarrow> if s = [] then toString now else s);
          sdir = (case opt_stateDir opts of None \<Rightarrow> out
                  | Some s \<Rightarrow> if s = [] then out else s);
          fname = (case opt_fileName opts of None \<Rightarrow> getFileNameFromUrl (url_pathname pf) u
                   | Some s \<Rightarrow> if s = [] then getFileNameFromUrl (url_pathname pf) u else s);
          d0 = updatePaths pf
                 \<lparr>url = u, outputDir = out, numConnections = n, uuid = uid, stateDir = sdir,
                  fileName = fname, finalFilePath = [], tempFilePath = [], stateFilePath = [],
                  downloadedBytesPerChunk = [], totalBytes = 0, startTime = 0,
                  lastTickTime = 0, lastSaveTime = 0, isPaused = False, aborted = False,
                  emitted = [], fs_calls = [], requests = [], writes = []\<rparr>;
          vec = (case opt_downloadedBytesPerChunk opts of
                   None \<Rightarrow> new_Array_fill0 n
                 | Some v \<Rightarrow> Inr v)
      in case vec of
           Inl e \<Rightarrow> Inl e
         | Inr v \<Rightarrow>
             Inr (d0\<lparr>downloadedBytesPerChunk := v,
                     totalBytes := (case opt_totalBytes opts of None \<Rightarrow> 0 | Some t \<Rightarrow> t),
                     stateFilePath := path_join pf sdir (uid @ ''.json'')\<rparr>))"

text \<open>
  Lines 189-202. \<^verbatim>\<open>JSON.stringify\<close> runs at the call, so the record is a snapshot of the
  fields at that moment; the asynchronous \<^verbatim>\<open>fs.writeFile\<close> ignores its outcome.
\<close>

definition current_state :: "Downloader \<Rightarrow> DownloadState" where
  "current_state d =
     \<lparr>st_url = url d, st_outputDir = outputDir d, st_fileName = fileName d,
      st_totalBytes = totalBytes d, st_downloadedBytesPerChunk = downloadedBytesPerChunk d,
      st_numConnections = numConnections d, st_uuid = uuid d, st_stateDir = stateDir d\<rparr>"

definition saveState :: "Downloader \<Rightarrow> Downloader" where
  "saveState d = d\<lparr>fs_calls := fs_calls d @ [WriteFile (stateFilePath d) (current_state d)]\<rparr>"

text \<open>Lines 204-209.\<close>

definition pause :: "Downloader \<Rightarrow> Downloader" where
  "pause d = emit EvPaused (saveState (d\<lparr>isPaused := True, aborted := True\<rparr>))"

text \<open>
  The caller may invoke \<^verbatim>\<open>pause()\<close> whenever the downloader is suspended in an
  \<^verbatim>\<open>await\<close>. Each suspension of the model carries a flag saying whether that happened.
\<close>

definition suspended :: "bool \<Rightarrow> Downloader \<Rightarrow> Downloader" where
  "suspended paused_meanwhile d = (if paused_meanwhile then pause d else d)"


section \<open>Chunk planning (downloadParallel, lines 211-228)\<close>

text \<open>
  \<^verbatim>\<open>Math.floor(totalBytes / numConnections)\<close> is floor division, which is \<open>div\<close> on
  \<^typ>\<open>int\<close>. (The loop body, the only reader of \<open>chunkSize\<close>, does not run when
  \<open>numConnections\<close> is 0 or negative.)
\<close>

definition chunkSize :: "Downloader \<Rightarrow> int" where
  "chunkSize d = totalBytes d div numConnections d"

definition seg_start :: "Downloader \<Rightarrow> nat \<Rightarrow> int" where
  "seg_start d i = int i * chunkSize d"

definition seg_end :: "Downloader \<Rightarrow> nat \<Rightarrow> int" where
  "seg_end d i =
     (if int i = numConnections d - 1 then totalBytes d - 1
      else seg_start d i + chunkSize d - 1)"

text \<open>\<^verbatim>\<open>this.downloadedBytesPerChunk[i] || 0\<close>: a hole, an index past the end, \<^verbatim>\<open>NaN\<close> and
  \<^verbatim>\<open>0\<close> all give 0.\<close>

definition downloaded_or_0 :: "cell list \<Rightarrow> nat \<Rightarrow> int" where
  "downloaded_or_0 xs i =
     (if i < length xs then (case xs ! i of Num n \<Rightarrow> n | NaN \<Rightarrow> 0 | Hole \<Rightarrow> 0) else 0)"

text \<open>One round of the loop: the request pushed for segment \<open>i\<close> (index, first byte,
  last byte), or \<^const>\<open>None\<close> when the segment is skipped.\<close>

definition dispatch :: "Downloader \<Rightarrow> nat \<Rightarrow> (nat \<times> int \<times> int) option" where
  "dispatch d i =
     (let startB = seg_start d i;
          endB = seg_end d i;
          downloaded = downloaded_or_0 (downloadedBytesPerChunk d) i;
          currentStart = startB + downloaded
      in if currentStart \<le> endB then Some (i, currentStart, endB) else None)"

text \<open>The loop \<^verbatim>\<open>for (let i = 0; i < this.numConnections; i++)\<close>.\<close>

definition planned :: "Downloader \<Rightarrow> (nat \<times> int \<times> int) list" where
  "planned d = List.map_filter (dispatch d) [0..<nat (numConnections d)]"

text \<open>The bytes a request asks for.\<close>

definition req_bytes :: "nat \<times> int \<times> int \<Rightarrow> int set" where
  "req_bytes r = {fst (snd r)..snd (snd r)}"

section \<open>Progress (lines 277-311)\<close>

text \<open>\<^verbatim>\<open>reduce((a, b) => a + b, 0)\<close>: holes are skipped, \<^verbatim>\<open>NaN\<close> makes the sum \<^verbatim>\<open>NaN\<close>
  (\<^const>\<open>None\<close>).\<close>

fun sum_cells :: "int option \<Rightarrow> cell list \<Rightarrow> int option" where
  "sum_cells a [] = a"
| "sum_cells a (Hole # xs) = sum_cells a xs"
| "sum_cells a (NaN # xs) = sum_cells None xs"
| "sum_cells a (Num n # xs) = sum_cells (case a of None \<Rightarrow> None | Some m \<Rightarrow> Some (m + n)) xs"

definition emitProgress :: "int option \<Rightarrow> Downloader \<Rightarrow> Downloader" where
  "emitProgress totalDownloaded d = emit (EvProgress totalDownloaded (totalBytes d) (uuid d)) d"

text \<open>
  \<open>now\<close> is the reading of \<^verbatim>\<open>Date.now()\<close>. A clock reading below the stored one makes the
  JavaScript difference negative and the test false; truncated subtraction gives 0 and
  the same test result.
\<close>

definition checkAndEmitProgress :: "nat \<Rightarrow> Downloader \<Rightarrow> Downloader" where
  "checkAndEmitProgress now d =
     (if now - lastTickTime d > 1000 then
        (let totalDownloaded = sum_cells (Some 0) (downloadedBytesPerChunk d);
             d1 = (emitProgress totalDownloaded d)\<lparr>lastTickTime := now\<rparr>
         in if now - lastSaveTime d1 > 5000 then (saveState d1)\<lparr>lastSaveTime := now\<rparr> else d1)
      else d)"

section \<open>Segment worker and retry supervisor (lines 230-275)\<close>

text \<open>
  What the network does to one attempt of one segment. A buffer of the response stream
  carries its length, the clock reading after it has been written, and whether the caller
  paused while the write was awaited. \<open>PauseCall\<close> is a call of \<^verbatim>\<open>pause()\<close> while the
  worker waits for the next buffer. A stream ends normally or with an error; an error
  also stands for a failing write of the next buffer.
\<close>

datatype stream_item = Buf nat nat bool | PauseCall

datatype stream_end = EndOfStream | StreamError string

datatype response = RequestFailed string | Streaming "stream_item list" stream_end

record attempt =
  pause_in_request :: bool
  response :: response
  pause_in_backoff :: bool

text \<open>\<^verbatim>\<open>this.downloadedBytesPerChunk[index] += chunk.length\<close>.\<close>

fun cell_add :: "cell \<Rightarrow> nat \<Rightarrow> cell" where
  "cell_add (Num n) len = Num (n + int len)"
| "cell_add NaN len = NaN"
| "cell_add Hole len = NaN"

definition add_downloaded :: "nat \<Rightarrow> nat \<Rightarrow> cell list \<Rightarrow> cell list" where
  "add_downloaded index len xs =
     (if index < length xs then xs[index := cell_add (xs ! index) len]
      else xs @ replicate (index - length xs) Hole @ [NaN])"

text \<open>The loop \<^verbatim>\<open>for await (const chunk of response.data)\<close> of lines 266-274, from file
  position \<open>currentPos\<close>. The result is the downloader and the error thrown, if any.\<close>

fun stream_loop ::
  "nat \<Rightarrow> stream_item list \<Rightarrow> stream_end \<Rightarrow> int \<Rightarrow> Downloader \<Rightarrow> Downloader \<times> js_error option" where
  "stream_loop index [] EndOfStream currentPos d = (d, None)"
| "stream_loop index [] (StreamError m) currentPos d = (d, Some (Error m))"
| "stream_loop index (PauseCall # rest) fin currentPos d =
     stream_loop index rest fin currentPos (pause d)"
| "stream_loop index (Buf len now paused_in_write # rest) fin currentPos d =
     (if aborted d then (d, None)
      else
        (let d1 = suspended paused_in_write (d\<lparr>writes := writes d @ [(index, currentPos, len)]\<rparr>);
             d2 = d1\<lparr>downloadedBytesPerChunk :=
                       add_downloaded index len (downloadedBytesPerChunk d1)\<rparr>;
             d3 = checkAndEmitProgress now d2
         in stream_loop index rest fin (currentPos + int len) d3))"

text \<open>Lines 250-275: the ranged request, then the stream.\<close>

definition downloadChunk ::
  "attempt \<Rightarrow> nat \<Rightarrow> int \<Rightarrow> int \<Rightarrow> Downloader \<Rightarrow> Downloader \<times> js_error option" where
  "downloadChunk att index startB endB d =
     (let d1 = suspended (pause_in_request att)
                 (d\<lparr>requests := requests d @ [(index, startB, endB)]\<rparr>)
      in case response att of
           RequestFailed m \<Rightarrow> (d1, Some (Error m))
         | Streaming items fin \<Rightarrow> stream_loop index items fin startB d1)"

definition maxRetries :: nat where
  "maxRetries = 10"

text \<open>
  Lines 230-248. \<open>net k\<close> is what the network does to the attempt numbered \<open>k\<close>. The
  length of the back-off sleep is not modelled, only that the caller may pause during it.
\<close>

function downloadChunkWithRetry ::
  "(nat \<Rightarrow> attempt) \<Rightarrow> nat \<Rightarrow> int \<Rightarrow> int \<Rightarrow> nat \<Rightarrow> Downloader \<Rightarrow> Downloader \<times> js_error option" where
  "downloadChunkWithRetry net index startB endB attempt d =
     (if aborted d then (d, None)
      else
        (case downloadChunk (net attempt) index startB endB d of
           (d1, None) \<Rightarrow> (d1, None)
         | (d1, Some err) \<Rightarrow>
             if aborted d1 then (d1, None)
             else if attempt \<le> maxRetries then
               downloadChunkWithRetry net index startB endB (attempt + 1)
                 (suspended (pause_in_backoff (net attempt)) d1)
             else (d1, Some err)))"
  by pat_completeness auto
termination
  by (relation "measure (\<lambda>(net, index, startB, endB, attempt, d). Suc maxRetries - attempt)") auto

declare downloadChunkWithRetry.simps [simp del]

text \<open>
  \<^verbatim>\<open>Promise.all\<close> over the supervised workers of the planned segments. The workers are
  run one after the other in index order, which is the schedule where the transport serves
  the segments in turn; the first rejection settles \<^verbatim>\<open>Promise.all\<close>, and the workers
  not yet served are not followed further. A worker whose turn comes after the
  cancellation token has been set returns at once, before its request is logged; in the
  source its first request is already under way by then. What is proved below about one
  segment holds for every order in which the workers are served.
\<close>

fun run_workers ::
  "(nat \<Rightarrow> nat \<Rightarrow> attempt) \<Rightarrow> (nat \<times> int \<times> int) list \<Rightarrow> Downloader \<Rightarrow> Downloader \<times> js_error option" where
  "run_workers net [] d = (d, None)"
| "run_workers net ((i, currentStart, endB) # rest) d =
     (case downloadChunkWithRetry (net i) i currentStart endB 1 d of
        (d1, Some err) \<Rightarrow> (d1, Some err)
      | (d1, None) \<Rightarrow> run_workers net rest d1)"

definition downloadParallel ::
  "(nat \<Rightarrow> nat \<Rightarrow> attempt) \<Rightarrow> Downloader \<Rightarrow> Downloader \<times> js_error option" where
  "downloadParallel net d = run_workers net (planned d) d"


section \<open>The job controller (start, lines 110-187)\<close>

text \<open>
  The pattern \<^verbatim>\<open>/filename="?([^"]+)"?/\<close> of line 129, as \<^verbatim>\<open>String.prototype.match\<close> applies
  it: the leftmost place where the text \<^verbatim>\<open>filename=\<close> is followed, after one optional
  double quote, by at least one character that is not a double quote; the group is the
  longest run of such characters.
\<close>

definition dquote :: char where
  "dquote = CHR 0x22"

definition filename_group :: "string \<Rightarrow> string option" where
  "filename_group rest =
     (let rest' = (case rest of [] \<Rightarrow> [] | c # cs \<Rightarrow> if c = dquote then cs else rest);
          g = takeWhile (\<lambda>c. c \<noteq> dquote) rest'
      in if g = [] then None else Some g)"

fun match_filename :: "string \<Rightarrow> string option" where
  "match_filename [] = None"
| "match_filename (c # cs) =
     (if prefix ''filename='' (c # cs) then
        (case filename_group (drop 9 (c # cs)) of
           Some g \<Rightarrow> Some g
         | None \<Rightarrow> match_filename cs)
      else match_filename cs)"

text \<open>
  The answer to the \<^verbatim>\<open>HEAD\<close> request: a rejection, or the two headers the controller
  reads. Node's HTTP parser accepts a \<^verbatim>\<open>Content-Length\<close> header only when it is a string
  of decimal digits, so the header is given as the number \<^verbatim>\<open>parseInt(_, 10)\<close> reads from it.
\<close>

datatype probe_result = ProbeFails string | ProbeOk "string option" "nat option"

text \<open>
  Everything outside the downloader that one call of \<^verbatim>\<open>start()\<close> meets, in the order of
  the source. An awaited call has a flag (the caller paused meanwhile) and an outcome;
  a file-system call that can throw has \<^const>\<open>None\<close> for success or the message of the
  error.
\<close>

record start_io =
  io_now :: nat
  io_probe_paused :: bool
  io_probe :: probe_result
  io_outputDir_exists :: bool
  io_mkdir_outputDir :: "string option"
  io_stateDir_exists :: bool
  io_mkdir_stateDir :: "string option"
  io_open_rplus :: "bool \<times> string option"
  io_open_w :: "bool \<times> string option"
  io_net :: "nat \<Rightarrow> nat \<Rightarrow> attempt"
  io_close :: "bool \<times> string option"
  io_final_exists :: bool
  io_unlink_final :: "string option"
  io_rename :: "string option"
  io_state_exists :: bool
  io_unlink_state :: "string option"
  io_close_in_catch :: "bool \<times> string option"

definition fs_call :: "fs_call \<Rightarrow> Downloader \<Rightarrow> Downloader" where
  "fs_call c d = d\<lparr>fs_calls := fs_calls d @ [c]\<rparr>"

text \<open>Sequencing of steps that may throw.\<close>

definition and_then ::
  "Downloader \<times> js_error option \<Rightarrow> (Downloader \<Rightarrow> Downloader \<times> js_error option)
     \<Rightarrow> Downloader \<times> js_error option" where
  "and_then r f = (case r of (d, None) \<Rightarrow> f d | (d, Some e) \<Rightarrow> (d, Some e))"

text \<open>A synchronous file-system call that may throw.\<close>

definition fs_sync :: "fs_call \<Rightarrow> string option \<Rightarrow> Downloader \<Rightarrow> Downloader \<times> js_error option" where
  "fs_sync c outcome d = (fs_call c d, map_option Error outcome)"

text \<open>An awaited file-system call that may throw.\<close>

definition fs_await ::
  "fs_call \<Rightarrow> bool \<times> string option \<Rightarrow> Downloader \<Rightarrow> Downloader \<times> js_error option" where
  "fs_await c outcome d = (suspended (fst outcome) (fs_call c d), map_option Error (snd outcome))"

text \<open>Lines 119-139: the probe, skipped when the size is known.\<close>

definition probe :: "platform \<Rightarrow> start_io \<Rightarrow> Downloader \<Rightarrow> Downloader \<times> js_error option" where
  "probe pf io d =
     (if totalBytes d = 0 then
        (let d1 = suspended (io_probe_paused io) d
         in case io_probe io of
              ProbeFails m \<Rightarrow> (d1, Some (Error m))
            | ProbeOk contentDisposition contentLength \<Rightarrow>
                (let d2 = (case contentDisposition of
                             None \<Rightarrow> d1
                           | Some cd \<Rightarrow>
                               (case match_filename cd of
                                  None \<Rightarrow> d1
                                | Some m \<Rightarrow> updatePaths pf (d1\<lparr>fileName := sanitizeFileName m\<rparr>)))
                 in case contentLength of
                      None \<Rightarrow> (d2, Some (Error ''Cannot determine file size.''))
                    | Some n \<Rightarrow> (d2\<lparr>totalBytes := int n\<rparr>, None)))
      else (d, None))"

text \<open>Lines 143-148.\<close>

definition ensure_dirs :: "start_io \<Rightarrow> Downloader \<Rightarrow> Downloader \<times> js_error option" where
  "ensure_dirs io d =
     and_then
       (if io_outputDir_exists io then (d, None)
        else fs_sync (Mkdir (outputDir d)) (io_mkdir_outputDir io) d)
       (\<lambda>d1. if io_stateDir_exists io then (d1, None)
             else fs_sync (Mkdir (stateDir d1)) (io_mkdir_stateDir io) d1)"

text \<open>Lines 152-157: open for update, and on any failure open for writing.\<close>

definition open_temp :: "start_io \<Rightarrow> Downloader \<Rightarrow> Downloader \<times> js_error option" where
  "open_temp io d =
     (case fs_await (OpenFile (tempFilePath d) ''r+'') (io_open_rplus io) d of
        (d1, None) \<Rightarrow> (d1, None)
      | (d1, Some e) \<Rightarrow> fs_await (OpenFile (tempFilePath d1) ''w'') (io_open_w io) d1)"

text \<open>Lines 165-170, reached after the handle has been closed.\<close>

definition finalize :: "start_io \<Rightarrow> Downloader \<Rightarrow> Downloader \<times> js_error option" where
  "finalize io d =
     (if \<not> isPaused d \<and> \<not> aborted d then
        and_then
          (if io_final_exists io then fs_sync (Unlink (finalFilePath d)) (io_unlink_final io) d
           else (d, None))
          (\<lambda>d1. and_then
             (fs_sync (Rename (tempFilePath d1) (finalFilePath d1)) (io_rename io) d1)
             (\<lambda>d2. and_then
                (if io_state_exists io then
                   fs_sync (Unlink (stateFilePath d2)) (io_unlink_state io) d2
                 else (d2, None))
                (\<lambda>d3. (emit (EvComplete (finalFilePath d3)) d3, None))))
      else (d, None))"

text \<open>Lines 172-179: the inner \<^verbatim>\<open>catch\<close>. An error thrown by the close itself leaves the
  block.\<close>

definition inner_catch ::
  "start_io \<Rightarrow> js_error \<Rightarrow> Downloader \<Rightarrow> Downloader \<times> js_error option" where
  "inner_catch io err d =
     and_then (fs_await CloseFile (io_close_in_catch io) d)
       (\<lambda>d1. if aborted d1 then (emit EvPaused d1, None) else (d1, Some err))"

text \<open>Lines 159-179: the inner \<^verbatim>\<open>try\<close> with its \<^verbatim>\<open>catch\<close>.\<close>

definition transfer :: "start_io \<Rightarrow> Downloader \<Rightarrow> Downloader \<times> js_error option" where
  "transfer io d =
     (case and_then (downloadParallel (io_net io) d)
             (\<lambda>d1. and_then (fs_await CloseFile (io_close io) d1) (finalize io)) of
        (d', None) \<Rightarrow> (d', None)
      | (d', Some err) \<Rightarrow> inner_catch io err d')"

text \<open>Lines 111-180: the body of the outer \<^verbatim>\<open>try\<close>.\<close>

definition start_body :: "platform \<Rightarrow> start_io \<Rightarrow> Downloader \<Rightarrow> Downloader \<times> js_error option" where
  "start_body pf io d =
     (let d0 = d\<lparr>isPaused := False, aborted := False, startTime := io_now io,
                 lastTickTime := io_now io\<rparr>
      in and_then (probe pf io d0)
           (\<lambda>d1. and_then
              (ensure_dirs io (emit (EvStart (totalBytes d1) (fileName d1) (uuid d1)) d1))
              (\<lambda>d2. and_then (open_temp io (saveState d2)) (transfer io))))"

text \<open>Lines 110-187: \<^verbatim>\<open>start()\<close>, with the outer \<^verbatim>\<open>catch\<close>.\<close>

definition start :: "platform \<Rightarrow> start_io \<Rightarrow> Downloader \<Rightarrow> Downloader" where
  "start pf io d =
     (case start_body pf io d of
        (d', None) \<Rightarrow> d'
      | (d', Some error) \<Rightarrow>
          if \<not> aborted d' then emit (EvError (message error)) d' else d')"

section \<open>Properties\<close>

text \<open>The fields that no step of \<^verbatim>\<open>start()\<close> after the probe assigns.\<close>

definition ident ::
  "Downloader \<Rightarrow> string \<times> string \<times> int \<times> string \<times> string \<times> string \<times> string \<times> string \<times> string \<times> int" where
  "ident d = (url d, outputDir d, numConnections d, uuid d, stateDir d, fileName d,
              finalFilePath d, tempFilePath d, stateFilePath d, totalBytes d)"

text \<open>The number of ranged requests issued so far for segment \<open>i\<close>.\<close>

definition requests_for :: "nat \<Rightarrow> Downloader \<Rightarrow> nat" where
  "requests_for i d = length (filter (\<lambda>r. fst r = i) (requests d))"

text \<open>The invariants of the resume record that \<open>saveState\<close> would write for \<open>d\<close>: as many
  entries as connections, each a number between 0 and the size of its segment.\<close>

definition progress_ok :: "Downloader \<Rightarrow> bool" where
  "progress_ok d \<longleftrightarrow>
     int (length (downloadedBytesPerChunk d)) = numConnections d \<and>
     list_all
       (\<lambda>i. case downloadedBytesPerChunk d ! i of
               Num n \<Rightarrow> 0 \<le> n \<and> n \<le> seg_end d i - seg_start d i + 1
             | NaN \<Rightarrow> False
             | Hole \<Rightarrow> False)
       [0..<length (downloadedBytesPerChunk d)]"

text \<open>The shape of a job's event sequence: one start event, progress events, then one of
  complete, error and paused.\<close>

fun is_start :: "event \<Rightarrow> bool" where
  "is_start (EvStart t f u) = True"
| "is_start e = False"

fun is_progress :: "event \<Rightarrow> bool" where
  "is_progress (EvProgress n t u) = True"
| "is_progress e = False"

fun is_outcome :: "event \<Rightarrow> bool" where
  "is_outcome (EvComplete p) = True"
| "is_outcome (EvError m) = True"
| "is_outcome e = False"

definition job_trace_ok :: "event list \<Rightarrow> bool" where
  "job_trace_ok es \<longleftrightarrow>
     (case es of
        [] \<Rightarrow> False
      | e # rest \<Rightarrow>
          is_start e \<and> rest \<noteq> [] \<and> list_all is_progress (butlast rest) \<and>
          (is_outcome (last rest) \<or> last rest = EvPaused))"

text \<open>
  \<open>advances d d'\<close>: from \<open>d\<close> to \<open>d'\<close> the trace has grown by events that are neither a
  start nor an outcome, the cancellation token has not been cleared, and a paused event
  has been emitted only if the token is set in \<open>d'\<close>.
\<close>

definition advances :: "Downloader \<Rightarrow> Downloader \<Rightarrow> bool" where
  "advances d d' \<longleftrightarrow>
     (\<exists>es. emitted d' = emitted d @ es \<and>
           (\<forall>e \<in> set es. \<not> is_start e \<and> \<not> is_outcome e) \<and>
           (aborted d \<longrightarrow> aborted d') \<and>
           (\<not> aborted d' \<longrightarrow> EvPaused \<notin> set es))"

text \<open>\<open>finishes d d'\<close>: \<open>d'\<close> is reached from \<open>d\<close> by steps that advance, followed by at most
  one outcome event, which is emitted with the cancellation token unset.\<close>

definition finishes :: "Downloader \<Rightarrow> Downloader \<Rightarrow> bool" where
  "finishes d d' \<longleftrightarrow>
     (\<exists>dm. advances d dm \<and>
           (d' = dm \<or> (\<not> aborted dm \<and> (\<exists>e. is_outcome e \<and> d' = emit e dm))))"

section \<open>Sample runs\<close>

text \<open>A platform for the sample runs: paths are joined with a slash, and a URL parses
  when it starts with \<^verbatim>\<open>http://h\<close>, its path being what follows.\<close>

definition pf0 :: platform where
  "pf0 = \<lparr>path_join = (\<lambda>dir name. dir @ ''/'' @ name),
          url_pathname = (\<lambda>u. if prefix ''http://h'' u then Some (drop 8 u) else None)\<rparr>"

definition opts0 :: DownloaderOptions where
  "opts0 = \<lparr>opt_numConnections = None, opt_uuid = None, opt_stateDir = None,
            opt_fileName = None, opt_downloadedBytesPerChunk = None, opt_totalBytes = None\<rparr>"

text \<open>A downloader for a file of \<open>T\<close> bytes over \<open>N\<close> connections, as the constructor
  builds it.\<close>

definition job :: "int \<Rightarrow> int \<Rightarrow> Downloader" where
  "job T N = projr (new_Downloader pf0 0 ''http://h/f.bin'' ''out''
                     (opts0\<lparr>opt_numConnections := Some N, opt_totalBytes := Some T\<rparr>))"

text \<open>An attempt whose stream delivers buffers of the given lengths and ends; one whose
  connection drops after them; one whose request is refused.\<close>

definition served :: "nat list \<Rightarrow> attempt" where
  "served lens = \<lparr>pause_in_request = False,
                  response = Streaming (map (\<lambda>n. Buf n 0 False) lens) EndOfStream,
                  pause_in_backoff = False\<rparr>"

definition dropped :: "nat list \<Rightarrow> attempt" where
  "dropped lens = \<lparr>pause_in_request = False,
                   response = Streaming (map (\<lambda>n. Buf n 0 False) lens) (StreamError ''socket hang up''),
                   pause_in_backoff = False\<rparr>"

definition refused :: attempt where
  "refused = \<lparr>pause_in_request = False, response = RequestFailed ''status 416'',
              pause_in_backoff = False\<rparr>"

text \<open>The first attempt loses its connection after 5 bytes; every later attempt is served
  the ten bytes of the range \<^verbatim>\<open>bytes=0-9\<close>.\<close>

definition net_drop_once :: "nat \<Rightarrow> nat \<Rightarrow> attempt" where
  "net_drop_once i k = (if k = 1 then dropped [5] else served [10])"

definition net_refuse :: "nat \<Rightarrow> nat \<Rightarrow> attempt" where
  "net_refuse i k = refused"

text \<open>A name whose extension is longer than 100 characters.\<close>

definition long_ext_name :: string where
  "long_ext_name = ''a.'' @ replicate 120 (CHR ''x'')"

text \<open>
  A run of \<^verbatim>\<open>start()\<close> in which nothing outside fails: the probe reports 10 bytes and no
  file name, both directories exist, the temp file does not exist yet (so it is opened
  for writing), every request is served ten bytes, and the caller never pauses.
\<close>

definition io_ok :: start_io where
  "io_ok = \<lparr>io_now = 0, io_probe_paused = False, io_probe = ProbeOk None (Some 10),
            io_outputDir_exists = True, io_mkdir_outputDir = None,
            io_stateDir_exists = True, io_mkdir_stateDir = None,
            io_open_rplus = (False, Some ''ENOENT''), io_open_w = (False, None),
            io_net = (\<lambda>i k. served [10]),
            io_close = (False, None), io_final_exists = False, io_unlink_final = None,
            io_rename = None, io_state_exists = True, io_unlink_state = None,
            io_close_in_catch = (False, None)\<rparr>"

text \<open>One segment of ten bytes whose first attempt loses the connection after 5 bytes.\<close>

definition run_drop_once :: Downloader where
  "run_drop_once = start pf0 (io_ok\<lparr>io_net := net_drop_once\<rparr>) (job 10 1)"

text \<open>One segment of ten bytes whose every request is refused.\<close>

definition run_refused :: Downloader where
  "run_refused = start pf0 (io_ok\<lparr>io_net := net_refuse\<rparr>) (job 10 1)"

text \<open>A caller's options with two connections and a progress vector of one entry.\<close>

definition opts_short_vector :: DownloaderOptions where
  "opts_short_vector =
     opts0\<lparr>opt_numConnections := Some 2, opt_downloadedBytesPerChunk := Some [Num 5],
            opt_totalBytes := Some 10\<rparr>"

text \<open>
  The caller pauses while the single worker of a ten-byte job awaits the write of its
  first buffer of 5 bytes; the write ends two seconds after the start.
\<close>

definition net_pause_in_write :: "nat \<Rightarrow> nat \<Rightarrow> attempt" where
  "net_pause_in_write i k =
     \<lparr>pause_in_request = False,
      response = Streaming [Buf 5 2000 True, Buf 5 2001 False] EndOfStream,
      pause_in_backoff = False\<rparr>"

definition run_pause_in_write :: Downloader where
  "run_pause_in_write = start pf0 (io_ok\<lparr>io_net := net_pause_in_write\<rparr>) (job 10 1)"

text \<open>A probe whose response has no \<^verbatim>\<open>Content-Length\<close>, for a job of unknown size.\<close>

definition run_no_size :: Downloader where
  "run_no_size = start pf0 (io_ok\<lparr>io_probe := ProbeOk None None\<rparr>) (job 0 4)"

text \<open>A job whose caller chose the name \<^verbatim>\<open>mine.bin\<close>, and a probe whose response carries
  \<^verbatim>\<open>Content-Disposition: attachment; filename="server.bin"\<close>.\<close>

definition named_job :: Downloader where
  "named_job = projr (new_Downloader pf0 0 ''http://h/f.bin'' ''out''
                       (opts0\<lparr>opt_fileName := Some ''mine.bin''\<rparr>))"

definition server_disposition :: string where
  "server_disposition = ''attachment; filename='' @ [dquote] @ ''server.bin'' @ [dquote]"

definition run_named :: Downloader where
  "run_named =
     start pf0 (io_ok\<lparr>io_probe := ProbeOk (Some server_disposition) (Some 10)\<rparr>) named_job"

text \<open>A job of unknown size for the URL \<^verbatim>\<open>http://h/d\<close>, and a probe whose response carries
  \<^verbatim>\<open>Content-Disposition: filename="report final.pdf"\<close> and a size of 10 bytes.\<close>

definition report_disposition :: string where
  "report_disposition = ''filename='' @ [dquote] @ ''report final.pdf'' @ [dquote]"

definition report_job :: Downloader where
  "report_job = projr (new_Downloader pf0 0 ''http://h/d'' ''out'' opts0)"

definition run_report :: Downloader where
  "run_report =
     start pf0 (io_ok\<lparr>io_probe := ProbeOk (Some report_disposition) (Some 10)\<rparr>) report_job"

section \<open>File names: proofs\<close>

lemma safe_replace: "c \<in> set (replace_unsafe n) \<Longrightarrow> safe_char c"
  by (auto simp: replace_unsafe_def safe_char_def)

lemma length_replace: "length (replace_unsafe n) = length n"
  by (simp add: replace_unsafe_def)

lemma noslash_replace: "CHR ''/'' \<notin> set (replace_unsafe n)"
  using safe_replace [of "CHR ''/''" n] by (auto simp: safe_char_def)

lemma last_component_noslash:
  assumes a: "CHR ''/'' \<notin> set p"
  shows "last_component p = p"
proof -
  have 1: "dropWhile (\<lambda>c. c = CHR ''/'') (rev p) = rev p"
    using a by (cases "rev p") auto
  have 2: "takeWhile (\<lambda>c. c \<noteq> CHR ''/'') (rev p) = rev p"
    using a by (auto simp add: takeWhile_eq_all_conv)
  show ?thesis by (simp add: last_component_def 1 2)
qed

lemma extname_suffix: "suffix (path_extname p) (last_component p)"
  by (simp add: path_extname_def Let_def suffix_drop)

lemma extname_shorter:
  "last_component p \<noteq> [] \<Longrightarrow> length (path_extname p) < length (last_component p)"
  by (auto simp add: path_extname_def Let_def)

text \<open>On a name without a slash, removing the extension leaves the part before it.\<close>

lemma basename_suffix_noslash:
  assumes a: "CHR ''/'' \<notin> set p"
  shows "path_basename_suffix p (path_extname p) = take (length p - length (path_extname p)) p"
proof (cases "p = []")
  case True
  then show ?thesis by (simp add: path_basename_suffix_def path_basename_def last_component_def)
next
  case False
  have lc: "last_component p = p" using a by (rule last_component_noslash)
  have sf: "suffix (path_extname p) p" using extname_suffix[of p] lc by simp
  have lt: "length (path_extname p) < length p" using extname_shorter[of p] lc False by simp
  then have ne: "path_extname p \<noteq> p" by auto
  show ?thesis
    using sf lt ne lc by (auto simp: path_basename_suffix_def path_basename_def Let_def)
qed

lemma sanitize_long:
  assumes "100 < length name"
  shows "sanitizeFileName name =
           take (100 - length (path_extname (replace_unsafe name))) (replace_unsafe name)
             @ path_extname (replace_unsafe name)"
proof -
  let ?m = "replace_unsafe name"
  let ?e = "path_extname ?m"
  have b: "path_basename_suffix ?m ?e = take (length ?m - length ?e) ?m"
    by (rule basename_suffix_noslash) (rule noslash_replace)
  have "100 - length ?e \<le> length ?m - length ?e"
    using assms by (simp add: length_replace)
  then have "take (100 - length ?e) (take (length ?m - length ?e) ?m) = take (100 - length ?e) ?m"
    by (simp add: min_def)
  then show ?thesis
    using assms b by (simp add: sanitizeFileName_def Let_def length_replace)
qed

lemma sanitize_short: "length name \<le> 100 \<Longrightarrow> sanitizeFileName name = replace_unsafe name"
  by (simp add: sanitizeFileName_def Let_def length_replace)

lemma extname_replace_suffix: "suffix (path_extname (replace_unsafe name)) (replace_unsafe name)"
  using extname_suffix [of "replace_unsafe name"] last_component_noslash [OF noslash_replace, of name]
  by simp

lemma sanitize_safe: "c \<in> set (sanitizeFileName name) \<Longrightarrow> safe_char c"
proof (cases "100 < length name")
  case False
  assume "c \<in> set (sanitizeFileName name)"
  with False show ?thesis by (simp add: sanitize_short safe_replace)
next
  case True
  assume c: "c \<in> set (sanitizeFileName name)"
  have "set (path_extname (replace_unsafe name)) \<subseteq> set (replace_unsafe name)"
    using extname_replace_suffix by (rule set_mono_suffix)
  moreover have "set (take k (replace_unsafe name)) \<subseteq> set (replace_unsafe name)" for k
    by (rule set_take_subset)
  ultimately have "c \<in> set (replace_unsafe name)"
    using c True by (auto simp: sanitize_long)
  then show ?thesis by (rule safe_replace)
qed

lemma sanitize_nonempty: "name \<noteq> [] \<Longrightarrow> sanitizeFileName name \<noteq> []"
proof (cases "100 < length name")
  case False
  assume "name \<noteq> []"
  with False show ?thesis by (simp add: sanitize_short replace_unsafe_def)
next
  case True
  have "replace_unsafe name \<noteq> []" using True by (auto simp: replace_unsafe_def)
  then show ?thesis using True by (auto simp: sanitize_long)
qed

lemma sanitize_length:
  "length (path_extname (replace_unsafe name)) \<le> 100 \<Longrightarrow> length (sanitizeFileName name) \<le> 100"
proof (cases "100 < length name")
  case True
  assume "length (path_extname (replace_unsafe name)) \<le> 100"
  with True show ?thesis by (simp add: sanitize_long length_replace)
next
  case False
  then show ?thesis by (simp add: sanitize_short length_replace)
qed

text \<open>
  C9, as the code has it. The result of \<open>sanitizeFileName\<close> consists of characters of
  \<^verbatim>\<open>[A-Za-z0-9._-]\<close> only. A name of at most 100 characters is returned with every other
  character replaced by an underscore, position by position. A longer name becomes the
  first \<open>100 - length ext\<close> characters of the replaced name followed by \<open>ext\<close>, the
  extension of the replaced name, which is kept whole. The result is at most 100
  characters long whenever that extension is at most 100 characters long.
\<close>

theorem sanitizeFileName_spec:
  "(\<forall>c \<in> set (sanitizeFileName name). safe_char c)
   \<and> (length name \<le> 100 \<longrightarrow> sanitizeFileName name = replace_unsafe name)
   \<and> (100 < length name \<longrightarrow>
        sanitizeFileName name =
          take (100 - length (path_extname (replace_unsafe name))) (replace_unsafe name)
            @ path_extname (replace_unsafe name)
        \<and> suffix (path_extname (replace_unsafe name)) (replace_unsafe name))
   \<and> (length (path_extname (replace_unsafe name)) \<le> 100 \<longrightarrow>
        length (sanitizeFileName name) \<le> 100)"
  using sanitize_length [of name] sanitize_safe [of _ name] sanitize_short [of name]
    sanitize_long [of name] extname_replace_suffix [of name]
  by blast

text \<open>C9, witness: a name of 127 characters with the extension \<^verbatim>\<open>.gz\<close> is cut to 97
  characters of its base and the extension.\<close>

theorem sanitizeFileName_spec_witness:
  "100 < length (replicate 120 (CHR ''x'') @ ''.tar.gz'')
   \<and> length (path_extname (replace_unsafe (replicate 120 (CHR ''x'') @ ''.tar.gz''))) \<le> 100
   \<and> sanitizeFileName (replicate 120 (CHR ''x'') @ ''.tar.gz'') = replicate 97 (CHR ''x'') @ ''.gz''
   \<and> length (sanitizeFileName (replicate 120 (CHR ''x'') @ ''.tar.gz'')) \<le> 100"
proof -
  have 1: "100 < length (replicate 120 (CHR ''x'') @ ''.tar.gz'')" by simp
  have 2: "path_extname (replace_unsafe (replicate 120 (CHR ''x'') @ ''.tar.gz'')) = ''.gz''"
    by code_simp
  have 3: "take 97 (replace_unsafe (replicate 120 (CHR ''x'') @ ''.tar.gz'')) = replicate 97 (CHR ''x'')"
    by code_simp
  show ?thesis
    using sanitizeFileName_spec [of "replicate 120 (CHR ''x'') @ ''.tar.gz''"] 1
    by (simp add: 2 3)
qed

text \<open>
  C9, counterexample: for the name \<^verbatim>\<open>a.xxx...x\<close> with 120 letters after the dot, the
  extension has 121 characters; the base is dropped, the extension is returned whole, and
  the result is longer than 100 characters.
\<close>

theorem sanitizeFileName_long_ext_counterexample:
  "\<not> length (sanitizeFileName long_ext_name) \<le> 100"
  by code_simp

lemma basename_not_slash: "path_basename p \<noteq> ''/''"
proof
  assume "path_basename p = ''/''"
  then have "CHR ''/'' \<in> set (last_component p)" by (simp add: path_basename_def)
  then have "CHR ''/'' \<in> set (takeWhile (\<lambda>c. c \<noteq> CHR ''/'') (dropWhile (\<lambda>c. c = CHR ''/'') (rev p)))"
    by (simp add: last_component_def)
  then show False by (auto dest: set_takeWhileD)
qed

lemma getFileNameFromUrl_nonempty: "getFileNameFromUrl up u \<noteq> []"
proof -
  have df: "sanitizeFileName ''downloaded_file'' = ''downloaded_file''"
    by (simp add: sanitize_short replace_unsafe_def safe_char_def)
  show ?thesis
    by (auto simp: getFileNameFromUrl_def Let_def df sanitize_nonempty split: option.splits)
qed

lemma getFileNameFromUrl_safe: "c \<in> set (getFileNameFromUrl up u) \<Longrightarrow> safe_char c"
proof (cases "up u")
  case None
  assume "c \<in> set (getFileNameFromUrl up u)"
  with None have "c \<in> set ''downloaded_file''" by (simp add: getFileNameFromUrl_def)
  then show ?thesis unfolding safe_char_def by auto
next
  case (Some p)
  assume "c \<in> set (getFileNameFromUrl up u)"
  with Some show ?thesis by (simp add: getFileNameFromUrl_def Let_def sanitize_safe)
qed

lemma getFileNameFromUrl_Some:
  "up u = Some p \<Longrightarrow>
   getFileNameFromUrl up u =
     (if path_basename p = [] then ''downloaded_file'' else sanitizeFileName (path_basename p))"
proof -
  have df: "sanitizeFileName ''downloaded_file'' = ''downloaded_file''"
    by (simp add: sanitize_short replace_unsafe_def safe_char_def)
  assume "up u = Some p"
  then show ?thesis
    using basename_not_slash [of p] by (simp add: getFileNameFromUrl_def Let_def df)
qed

lemma new_Downloader_isl:
  "isl (new_Downloader pf now u out opts) = isl (new_Downloader pf now u' out opts)"
  by (simp add: new_Downloader_def Let_def split: option.splits sum.splits)

lemma new_Downloader_default:
  "opt_numConnections opts = None \<Longrightarrow> \<not> isl (new_Downloader pf now u out opts)"
  by (simp add: new_Downloader_def Let_def new_Array_fill0_def split: option.splits sum.splits)

text \<open>
  C10. For every string \<open>u\<close> and every behaviour \<open>up\<close> of the URL parser, \<open>getFileNameFromUrl\<close>
  returns a non-empty name made of characters of \<^verbatim>\<open>[A-Za-z0-9._-]\<close>. It is the literal
  \<^verbatim>\<open>downloaded_file\<close> when the string does not parse and when the path has no last
  component (it is empty or consists of slashes); otherwise it is the sanitised last
  component. The model is a total function: the exception of the URL constructor is the
  \<^const>\<open>None\<close> branch. Whether the constructor of the downloader throws does not depend
  on the URL, and with the default number of connections it never throws.
\<close>

theorem getFileNameFromUrl_total:
  "getFileNameFromUrl up u \<noteq> []
   \<and> (\<forall>c \<in> set (getFileNameFromUrl up u). safe_char c)
   \<and> (up u = None \<longrightarrow> getFileNameFromUrl up u = ''downloaded_file'')
   \<and> (\<forall>p. up u = Some p \<longrightarrow>
         getFileNameFromUrl up u =
           (if path_basename p = [] then ''downloaded_file'' else sanitizeFileName (path_basename p)))
   \<and> isl (new_Downloader pf now u out opts) = isl (new_Downloader pf now u' out opts)
   \<and> (opt_numConnections opts = None \<longrightarrow> \<not> isl (new_Downloader pf now u out opts))"
  using getFileNameFromUrl_nonempty [of up u] getFileNameFromUrl_safe [of _ up u]
    getFileNameFromUrl_Some [of up u] new_Downloader_isl [of pf now u out opts u']
    new_Downloader_default [of opts pf now u out]
  by (simp add: getFileNameFromUrl_def)

text \<open>C10, witness: a string that is no URL, and a URL whose path is a single slash, both
  give \<^verbatim>\<open>downloaded_file\<close>, and the downloader is constructed.\<close>

theorem getFileNameFromUrl_total_witness:
  "url_pathname pf0 ''not a url'' = None
   \<and> getFileNameFromUrl (url_pathname pf0) ''not a url'' = ''downloaded_file''
   \<and> url_pathname pf0 ''http://h/'' = Some ''/''
   \<and> getFileNameFromUrl (url_pathname pf0) ''http://h/'' = ''downloaded_file''
   \<and> opt_numConnections opts0 = None
   \<and> \<not> isl (new_Downloader pf0 0 ''not a url'' ''out'' opts0)"
proof -
  have 1: "url_pathname pf0 ''not a url'' = None" by (simp add: pf0_def)
  have 2: "url_pathname pf0 ''http://h/'' = Some ''/''" by (simp add: pf0_def)
  have 3: "path_basename ''/'' = []" by (simp add: path_basename_def last_component_def)
  have 4: "opt_numConnections opts0 = None" by (simp add: opts0_def)
  show ?thesis
    using getFileNameFromUrl_total [of "url_pathname pf0" "''not a url''" pf0 0 "''out''" opts0 "''not a url''"]
      getFileNameFromUrl_total [of "url_pathname pf0" "''http://h/''" pf0 0 "''out''" opts0 "''http://h/''"]
      1 2 3 4
    by simp
qed

section \<open>Frame properties of the steps\<close>

lemma ident_atomic [simp]:
  "ident (emit ev d) = ident d"
  "ident (saveState d) = ident d"
  "ident (fs_call c d) = ident d"
  "ident (pause d) = ident d"
  "ident (suspended b d) = ident d"
  "ident (checkAndEmitProgress now d) = ident d"
  by (simp_all add: ident_def emit_def saveState_def fs_call_def pause_def suspended_def
        checkAndEmitProgress_def emitProgress_def Let_def)

lemma requests_atomic [simp]:
  "requests (emit ev d) = requests d"
  "requests (saveState d) = requests d"
  "requests (fs_call c d) = requests d"
  "requests (pause d) = requests d"
  "requests (suspended b d) = requests d"
  "requests (checkAndEmitProgress now d) = requests d"
  by (simp_all add: emit_def saveState_def fs_call_def pause_def suspended_def
        checkAndEmitProgress_def emitProgress_def Let_def)

lemma requests_stream_loop [simp]:
  "requests (fst (stream_loop index items fin pos d)) = requests d"
  by (induction index items fin pos d rule: stream_loop.induct) (simp_all add: Let_def)

lemma requests_downloadChunk:
  "requests (fst (downloadChunk att index s e d)) = requests d @ [(index, s, e)]"
  by (simp add: downloadChunk_def Let_def split: response.splits)

section \<open>The retry supervisor: proofs\<close>

text \<open>
  From attempt number \<open>attempt\<close> on, the supervisor issues \<open>k\<close> requests, all for the range
  it was called with; \<open>k\<close> is at most the number of attempts left, and the error is
  passed on only when all of them have been used.
\<close>

lemma retry_requests:
  "attempt \<le> Suc maxRetries \<Longrightarrow>
   \<exists>k. (\<not> aborted d \<longrightarrow> 1 \<le> k) \<and> k \<le> Suc (Suc maxRetries) - attempt \<and>
       requests (fst (downloadChunkWithRetry net index s e attempt d))
         = requests d @ replicate k (index, s, e) \<and>
       (snd (downloadChunkWithRetry net index s e attempt d) \<noteq> None \<longrightarrow>
          k = Suc (Suc maxRetries) - attempt)"
proof (induction net index s e attempt d rule: downloadChunkWithRetry.induct)
  case (1 net index s e attempt d)
  note le = \<open>attempt \<le> Suc maxRetries\<close>
  note unfold = downloadChunkWithRetry.simps [of net index s e attempt d]
  show ?case
  proof (cases "aborted d")
    case True
    then show ?thesis using le
      by (intro exI [of _ 0]) (simp add: unfold)
  next
    case nab: False
    obtain d1 r where dc: "downloadChunk (net attempt) index s e d = (d1, r)"
      by (cases "downloadChunk (net attempt) index s e d")
    have rq: "requests d1 = requests d @ [(index, s, e)]"
      using requests_downloadChunk [of "net attempt" index s e d] dc by simp
    show ?thesis
    proof (cases r)
      case None
      then show ?thesis using le nab dc rq
        by (intro exI [of _ 1]) (auto simp add: unfold maxRetries_def)
    next
      case (Some err)
      show ?thesis
      proof (cases "aborted d1")
        case True
        then show ?thesis using le nab dc rq Some
          by (intro exI [of _ 1]) (auto simp add: unfold maxRetries_def)
      next
        case nab1: False
        show ?thesis
        proof (cases "attempt \<le> maxRetries")
          case False
          then show ?thesis using le nab nab1 dc rq Some
            by (intro exI [of _ 1]) (auto simp add: unfold maxRetries_def)
        next
          case True
          let ?d2 = "suspended (pause_in_backoff (net attempt)) d1"
          have "attempt + 1 \<le> Suc maxRetries" using True by simp
          from "1.IH" [OF nab dc [symmetric] Some nab1 True this]
          obtain k where k: "(\<not> aborted ?d2 \<longrightarrow> 1 \<le> k) \<and> k \<le> Suc (Suc maxRetries) - (attempt + 1) \<and>
              requests (fst (downloadChunkWithRetry net index s e (attempt + 1) ?d2))
                = requests ?d2 @ replicate k (index, s, e) \<and>
              (snd (downloadChunkWithRetry net index s e (attempt + 1) ?d2) \<noteq> None \<longrightarrow>
                 k = Suc (Suc maxRetries) - (attempt + 1))"
            by blast
          have eq: "downloadChunkWithRetry net index s e attempt d
                      = downloadChunkWithRetry net index s e (attempt + 1) ?d2"
            using nab nab1 dc Some True by (simp add: unfold)
          show ?thesis
            using k rq True unfolding eq
            by (intro exI [of _ "Suc k"]) (auto simp add: replicate_append_same)
        qed
      qed
    qed
  qed
qed

text \<open>
  C1, the code at the failing input. A job of one segment, bytes 0 to 9. The first
  attempt writes 5 bytes and loses its connection. The retry asks again for
  \<^verbatim>\<open>bytes=0-9\<close>, not for \<^verbatim>\<open>bytes=5-9\<close>, writes the ten bytes it is served at offset 0, and
  adds them to the counter, which ends at 15 for a segment of 10 bytes.
\<close>

theorem retry_restarts_at_segment_start:
  "requests run_drop_once = [(0, 0, 9), (0, 0, 9)]
   \<and> writes run_drop_once = [(0, 0, 5), (0, 0, 10)]
   \<and> downloadedBytesPerChunk run_drop_once = [Num 15]
   \<and> seg_end (job 10 1) 0 - seg_start (job 10 1) 0 + 1 = 10"
  by code_simp


section \<open>Chunk planning: proofs\<close>

lemma set_planned:
  "set (planned d) = {r. \<exists>i < nat (numConnections d). dispatch d i = Some r}"
proof -
  have "set (List.map_filter f xs) = {r. \<exists>i \<in> set xs. f i = Some r}" for f :: "nat \<Rightarrow> (nat \<times> int \<times> int) option" and xs
    by (induction xs) (auto simp: List.map_filter_simps split: option.splits)
  then show ?thesis by (auto simp: planned_def)
qed

lemma map_fst_planned:
  "map fst (planned d) = filter (\<lambda>i. dispatch d i \<noteq> None) [0..<nat (numConnections d)]"
proof -
  have "map fst (List.map_filter (dispatch d) xs) = filter (\<lambda>i. dispatch d i \<noteq> None) xs" for xs
    by (induction xs) (auto simp: List.map_filter_simps dispatch_def Let_def split: option.splits)
  then show ?thesis by (simp add: planned_def)
qed

lemma distinct_planned: "distinct (planned d)"
proof -
  have "distinct (map fst (planned d))" by (simp add: map_fst_planned)
  then show ?thesis by (simp add: distinct_map)
qed

lemma fresh_dispatch:
  assumes "downloaded_or_0 (downloadedBytesPerChunk d) i = 0"
  shows "dispatch d i = (if seg_start d i \<le> seg_end d i then Some (i, seg_start d i, seg_end d i) else None)"
  using assms by (simp add: dispatch_def Let_def)

lemma chunk_bounds:
  assumes T: "0 \<le> totalBytes d" and N: "1 \<le> numConnections d"
  shows "0 \<le> chunkSize d" "numConnections d * chunkSize d \<le> totalBytes d"
    "totalBytes d < numConnections d * chunkSize d + numConnections d"
proof -
  let ?T = "totalBytes d" and ?N = "numConnections d"
  show "0 \<le> chunkSize d" using T N by (simp add: chunkSize_def pos_imp_zdiv_nonneg_iff)
  have "?T = ?N * (?T div ?N) + ?T mod ?N" by simp
  moreover have "0 \<le> ?T mod ?N" "?T mod ?N < ?N" using N by simp_all
  ultimately show "?N * chunkSize d \<le> ?T" "?T < ?N * chunkSize d + ?N"
    unfolding chunkSize_def by linarith+
qed

lemma seg_end_le:
  assumes T: "0 \<le> totalBytes d" and N: "1 \<le> numConnections d" and i: "i < nat (numConnections d)"
  shows "seg_end d i \<le> totalBytes d - 1"
proof (cases "int i = numConnections d - 1")
  case True
  then show ?thesis by (simp add: seg_end_def)
next
  case False
  then have "int i + 1 \<le> numConnections d - 1" using i by linarith
  then have "(int i + 1) * chunkSize d \<le> (numConnections d - 1) * chunkSize d"
    using chunk_bounds(1)[OF T N] by (intro mult_right_mono) auto
  also have "\<dots> \<le> numConnections d * chunkSize d"
    using chunk_bounds(1)[OF T N] by (simp add: algebra_simps)
  also have "\<dots> \<le> totalBytes d" by (rule chunk_bounds(2)[OF T N])
  finally show ?thesis using False by (simp add: seg_end_def seg_start_def algebra_simps)
qed

lemma seg_before:
  assumes T: "0 \<le> totalBytes d" and N: "1 \<le> numConnections d"
    and ij: "i < j" and j: "j < nat (numConnections d)"
  shows "seg_end d i < seg_start d j"
proof -
  have ne: "int i \<noteq> numConnections d - 1" using ij j by linarith
  have "(int i + 1) * chunkSize d \<le> int j * chunkSize d"
    using chunk_bounds(1)[OF T N] ij by (intro mult_right_mono) auto
  then show ?thesis using ne by (simp add: seg_end_def seg_start_def algebra_simps)
qed

lemma covered:
  assumes T: "0 \<le> totalBytes d" and N: "1 \<le> numConnections d"
    and x: "0 \<le> x" "x < totalBytes d"
  shows "\<exists>i < nat (numConnections d). seg_start d i \<le> x \<and> x \<le> seg_end d i"
proof (cases "(numConnections d - 1) * chunkSize d \<le> x")
  case True
  let ?i = "nat (numConnections d - 1)"
  have "?i < nat (numConnections d)" using N by simp
  moreover have "int ?i = numConnections d - 1" using N by simp
  ultimately show ?thesis using True x N
    by (intro exI[of _ ?i]) (simp add: seg_start_def seg_end_def)
next
  case False
  let ?c = "chunkSize d"
  have c0: "0 \<le> ?c" by (rule chunk_bounds(1)[OF T N])
  have lt: "x < (numConnections d - 1) * ?c" using False by simp
  have cpos: "0 < ?c"
  proof (rule ccontr)
    assume "\<not> 0 < ?c"
    then have "?c = 0" using c0 by simp
    then show False using lt x by simp
  qed
  let ?q = "x div ?c"
  have q0: "0 \<le> ?q" using x cpos by (simp add: pos_imp_zdiv_nonneg_iff)
  have qc: "?q * ?c \<le> x" "x < ?q * ?c + ?c"
  proof -
    have "x = ?q * ?c + x mod ?c" by simp
    moreover have "0 \<le> x mod ?c" "x mod ?c < ?c" using cpos by simp_all
    ultimately show "?q * ?c \<le> x" "x < ?q * ?c + ?c" by linarith+
  qed
  have "?q * ?c < (numConnections d - 1) * ?c" using qc(1) lt by linarith
  then have qlt: "?q < numConnections d - 1" using cpos by (simp add: mult_less_cancel_right)
  let ?i = "nat ?q"
  have i: "int ?i = ?q" using q0 by simp
  have "?i < nat (numConnections d)" using qlt q0 by linarith
  moreover have "int ?i \<noteq> numConnections d - 1" using qlt i by linarith
  ultimately show ?thesis using qc i
    by (intro exI[of _ ?i]) (simp add: seg_start_def seg_end_def algebra_simps)
qed

lemma planner_partition_aux:
  assumes T: "0 \<le> totalBytes d" and N: "1 \<le> numConnections d"
    and fresh: "\<forall>i < nat (numConnections d). downloaded_or_0 (downloadedBytesPerChunk d) i = 0"
  shows "(\<Union>r \<in> set (planned d). req_bytes r) = {0..<totalBytes d}"
    and "\<forall>r \<in> set (planned d). \<forall>r' \<in> set (planned d).
           r \<noteq> r' \<longrightarrow> req_bytes r \<inter> req_bytes r' = {}"
proof -
  have mem: "r \<in> set (planned d) \<longleftrightarrow>
      (\<exists>i < nat (numConnections d). seg_start d i \<le> seg_end d i \<and> r = (i, seg_start d i, seg_end d i))" for r
    using fresh by (auto simp: set_planned fresh_dispatch split: if_splits)
  show "(\<Union>r \<in> set (planned d). req_bytes r) = {0..<totalBytes d}"
  proof (intro equalityI subsetI)
    fix x assume "x \<in> (\<Union>r \<in> set (planned d). req_bytes r)"
    then obtain i where i: "i < nat (numConnections d)" "seg_start d i \<le> x" "x \<le> seg_end d i"
      by (auto simp: mem req_bytes_def)
    have "0 \<le> seg_start d i" using chunk_bounds(1)[OF T N] by (simp add: seg_start_def)
    moreover have "seg_end d i \<le> totalBytes d - 1" by (rule seg_end_le[OF T N i(1)])
    ultimately show "x \<in> {0..<totalBytes d}" using i by simp
  next
    fix x assume "x \<in> {0..<totalBytes d}"
    then have "0 \<le> x" "x < totalBytes d" by simp_all
    from covered[OF T N this] obtain i where
      i: "i < nat (numConnections d)" "seg_start d i \<le> x" "x \<le> seg_end d i" by blast
    then have "(i, seg_start d i, seg_end d i) \<in> set (planned d)" by (auto simp: mem)
    moreover have "x \<in> req_bytes (i, seg_start d i, seg_end d i)" using i by (simp add: req_bytes_def)
    ultimately show "x \<in> (\<Union>r \<in> set (planned d). req_bytes r)" by blast
  qed
  show "\<forall>r \<in> set (planned d). \<forall>r' \<in> set (planned d).
           r \<noteq> r' \<longrightarrow> req_bytes r \<inter> req_bytes r' = {}"
  proof (intro ballI impI)
    fix r r' assume "r \<in> set (planned d)" "r' \<in> set (planned d)" "r \<noteq> r'"
    then obtain i j where
      i: "i < nat (numConnections d)" "r = (i, seg_start d i, seg_end d i)" and
      j: "j < nat (numConnections d)" "r' = (j, seg_start d j, seg_end d j)" and
      ne: "i \<noteq> j"
      by (auto simp: mem)
    from ne consider "i < j" | "j < i" by linarith
    then show "req_bytes r \<inter> req_bytes r' = {}"
    proof cases
      case 1
      from seg_before[OF T N 1 j(1)] show ?thesis using i j by (auto simp: req_bytes_def)
    next
      case 2
      from seg_before[OF T N 2 i(1)] show ?thesis using i j by (auto simp: req_bytes_def)
    qed
  qed
qed

lemma map_filter_all_None: "(\<forall>x \<in> set xs. f x = None) \<Longrightarrow> List.map_filter f xs = []"
  by (induction xs) (auto simp: List.map_filter_simps)

lemma planner_small_aux:
  assumes T: "0 < totalBytes d" and N: "totalBytes d < numConnections d"
    and fresh: "\<forall>i < nat (numConnections d). downloaded_or_0 (downloadedBytesPerChunk d) i = 0"
  shows "planned d = [(nat (numConnections d) - 1, 0, totalBytes d - 1)]"
proof -
  let ?n = "nat (numConnections d)"
  have c: "chunkSize d = 0" using T N by (simp add: chunkSize_def)
  have n: "?n = Suc (?n - 1)" using T N by simp
  have last: "dispatch d (?n - 1) = Some (?n - 1, 0, totalBytes d - 1)"
  proof -
    have "int (?n - 1) = numConnections d - 1" using T N by simp
    then show ?thesis using fresh T N c
      by (simp add: fresh_dispatch seg_start_def seg_end_def)
  qed
  have others: "\<forall>i \<in> set [0..<?n - 1]. dispatch d i = None"
  proof
    fix i assume "i \<in> set [0..<?n - 1]"
    then have i: "i < ?n - 1" by simp
    then have "int i \<noteq> numConnections d - 1" by linarith
    moreover have "i < ?n" using i by simp
    ultimately show "dispatch d i = None" using fresh c
      by (simp add: fresh_dispatch seg_start_def seg_end_def)
  qed
  have "[0..<Suc (?n - 1)] = [0..<?n - 1] @ [?n - 1]" by simp
  then have "[0..<?n] = [0..<?n - 1] @ [?n - 1]" using n by simp
  then have "planned d = List.map_filter (dispatch d) ([0..<?n - 1] @ [?n - 1])"
    by (simp add: planned_def)
  also have "\<dots> = List.map_filter (dispatch d) [0..<?n - 1] @ List.map_filter (dispatch d) [?n - 1]"
    by (simp add: List.map_filter_def)
  also have "\<dots> = [(?n - 1, 0, totalBytes d - 1)]"
    using map_filter_all_None[OF others] last by (simp add: List.map_filter_simps)
  finally show ?thesis .
qed

text \<open>Two plans: 1000 bytes over 4 connections, and an empty file, for which nothing is
  dispatched.\<close>

lemma planned_even_split:
  "planned (job 1000 4) = [(0, 0, 249), (1, 250, 499), (2, 500, 749), (3, 750, 999)]"
  by code_simp

lemma planned_empty_file: "planned (job 0 4) = []"
  by code_simp

lemma fresh_replicate:
  "downloadedBytesPerChunk d = replicate n (Num 0) \<Longrightarrow> downloaded_or_0 (downloadedBytesPerChunk d) i = 0"
  by (simp add: downloaded_or_0_def)



text \<open>
  C4, as the code has it. When there are more connections than bytes, \<open>0 < T < N\<close>, the
  chunk size is 0: on a fresh start the planner dispatches exactly one request, for the
  last segment \<open>N - 1\<close>, and it asks for all the bytes \<open>0\<close> to \<open>T - 1\<close>; the other \<open>N - 1\<close>
  segments are empty and are skipped.
\<close>

theorem planner_more_connections_than_bytes:
  assumes "0 < totalBytes d" and "totalBytes d < numConnections d"
    and "\<forall>i < nat (numConnections d). downloaded_or_0 (downloadedBytesPerChunk d) i = 0"
  shows "planned d = [(nat (numConnections d) - 1, 0, totalBytes d - 1)]"
  using assms by (rule planner_small_aux)

text \<open>C4, witness: 3 bytes over 5 connections are fetched by segment 4 alone.\<close>

theorem planner_more_connections_than_bytes_witness:
  "0 < totalBytes (job 3 5) \<and> totalBytes (job 3 5) < numConnections (job 3 5)
   \<and> downloadedBytesPerChunk (job 3 5) = replicate 5 (Num 0)
   \<and> planned (job 3 5) = [(4, 0, 2)]"
proof -
  have T: "totalBytes (job 3 5) = 3" by code_simp
  have N: "numConnections (job 3 5) = 5" by code_simp
  have v: "downloadedBytesPerChunk (job 3 5) = replicate 5 (Num 0)" by code_simp
  have fresh: "\<forall>i < nat (numConnections (job 3 5)).
                 downloaded_or_0 (downloadedBytesPerChunk (job 3 5)) i = 0"
    using fresh_replicate [OF v] by blast
  show ?thesis
    using planner_more_connections_than_bytes [of "job 3 5"] fresh T N v by simp
qed

text \<open>C4, counterexample: 2 bytes over 3 connections. The claim asks for two requests of
  one byte each; the planner dispatches one request, for segment 2, of two bytes.\<close>

theorem planner_two_bytes_three_connections_counterexample:
  "planned (job 2 3) = [(2, 0, 1)] \<and> length (planned (job 2 3)) \<noteq> 2
   \<and> req_bytes (2, 0, 1) = {0, 1}"
proof -
  have "planned (job 2 3) = [(2, 0, 1)]" by code_simp
  moreover have "req_bytes (2, 0, 1) = {0, 1}" by (auto simp: req_bytes_def)
  ultimately show ?thesis by simp
qed

section \<open>The retry budget of a run\<close>

lemma requests_fs [simp]:
  "requests (fst (fs_sync c outcome d)) = requests d"
  "requests (fst (fs_await c aoutcome d)) = requests d"
  by (simp_all add: fs_sync_def fs_await_def)

lemma requests_and_then:
  assumes "requests (fst r) = requests d"
    and "\<And>x. requests x = requests d \<Longrightarrow> requests (fst (f x)) = requests d"
  shows "requests (fst (and_then r f)) = requests d"
  using assms by (cases r) (auto simp: and_then_def split: option.splits)

lemma requests_ensure_dirs [simp]: "requests (fst (ensure_dirs io d)) = requests d"
  unfolding ensure_dirs_def by (rule requests_and_then) auto

lemma requests_open_temp [simp]: "requests (fst (open_temp io d)) = requests d"
proof -
  obtain d1 r where o: "fs_await (OpenFile (tempFilePath d) ''r+'') (io_open_rplus io) d = (d1, r)"
    by (cases "fs_await (OpenFile (tempFilePath d) ''r+'') (io_open_rplus io) d")
  have "requests d1 = requests d"
    using requests_fs(2) [of "OpenFile (tempFilePath d) ''r+''" "io_open_rplus io" d] unfolding o by simp
  then show ?thesis using o by (simp add: open_temp_def split: option.splits)
qed

lemma requests_finalize [simp]: "requests (fst (finalize io d)) = requests d"
  unfolding finalize_def by (auto intro!: requests_and_then)

lemma requests_inner_catch [simp]: "requests (fst (inner_catch io err d)) = requests d"
  unfolding inner_catch_def by (rule requests_and_then) auto

lemma requests_probe [simp]: "requests (fst (probe pf io d)) = requests d"
  by (simp add: probe_def Let_def updatePaths_def split: probe_result.splits option.splits)

lemma requests_transfer:
  "requests (fst (transfer io d)) = requests (fst (downloadParallel (io_net io) d))"
proof -
  obtain dA rA where A: "downloadParallel (io_net io) d = (dA, rA)"
    by (cases "downloadParallel (io_net io) d")
  let ?r = "and_then (dA, rA) (\<lambda>d1. and_then (fs_await CloseFile (io_close io) d1) (finalize io))"
  have 1: "requests (fst ?r) = requests dA"
    by (intro requests_and_then) auto
  obtain d' r where r: "?r = (d', r)" by (cases ?r)
  then have "requests d' = requests dA" using 1 by simp
  then show ?thesis using r A by (simp add: transfer_def split: option.splits)
qed

lemma requests_for_retry:
  "requests_for i (fst (downloadChunkWithRetry net j s e 1 d))
     \<le> requests_for i d + (if i = j then 11 else 0)"
proof -
  from retry_requests [of 1 d net j s e] obtain k where
    k: "k \<le> 11" "requests (fst (downloadChunkWithRetry net j s e 1 d)) = requests d @ replicate k (j, s, e)"
    by (auto simp: maxRetries_def)
  show ?thesis using k(1) unfolding requests_for_def k(2) by simp
qed

lemma requests_for_run_workers:
  "distinct (map fst ws) \<Longrightarrow>
   requests_for i (fst (run_workers net ws d))
     \<le> requests_for i d + (if i \<in> fst ` set ws then 11 else 0)"
proof (induction net ws d rule: run_workers.induct)
  case (1 net d)
  then show ?case by simp
next
  case (2 net j s e rest d)
  obtain d1 r where w: "downloadChunkWithRetry (net j) j s e 1 d = (d1, r)"
    by (cases "downloadChunkWithRetry (net j) j s e 1 d")
  have b1: "requests_for i d1 \<le> requests_for i d + (if i = j then 11 else 0)"
    using requests_for_retry [of i "net j" j s e d] unfolding w by simp
  have nj: "j \<notin> fst ` set rest" and dr: "distinct (map fst rest)" using "2.prems" by auto
  show ?case
  proof (cases r)
    case (Some err)
    then show ?thesis using w b1 by (auto split: if_splits)
  next
    case None
    have "requests_for i (fst (run_workers net rest d1))
            \<le> requests_for i d1 + (if i \<in> fst ` set rest then 11 else 0)"
      using "2.IH" [OF w [symmetric] None dr] .
    then show ?thesis using w None b1 nj by (auto split: if_splits)
  qed
qed

lemma requests_for_downloadParallel:
  "requests_for i (fst (downloadParallel net d)) \<le> requests_for i d + 11"
proof -
  have "distinct (map fst (planned d))" by (simp add: map_fst_planned)
  from requests_for_run_workers [OF this, of i net d] show ?thesis
    by (simp add: downloadParallel_def split: if_splits)
qed

lemma requests_for_start:
  "requests_for i (start pf io d) \<le> requests_for i d + 11"
proof -
  let ?d0 = "d\<lparr>isPaused := False, aborted := False, startTime := io_now io, lastTickTime := io_now io\<rparr>"
  have same: "requests x = requests d \<Longrightarrow> requests_for i x \<le> requests_for i d + 11" for x
    by (simp add: requests_for_def)
  have tr: "requests x = requests d \<Longrightarrow> requests_for i (fst (transfer io x)) \<le> requests_for i d + 11" for x
    using requests_for_downloadParallel [of i "io_net io" x]
    by (simp add: requests_for_def requests_transfer)
  obtain d1 r where p: "probe pf io ?d0 = (d1, r)" by (cases "probe pf io ?d0")
  have r1: "requests d1 = requests d" using requests_probe [of pf io ?d0] unfolding p by simp
  let ?ds = "emit (EvStart (totalBytes d1) (fileName d1) (uuid d1)) d1"
  obtain d2 r2 where e: "ensure_dirs io ?ds = (d2, r2)" by (cases "ensure_dirs io ?ds")
  have r2: "requests d2 = requests d" using requests_ensure_dirs [of io ?ds] r1 unfolding e by simp
  obtain d3 r3 where o: "open_temp io (saveState d2) = (d3, r3)"
    by (cases "open_temp io (saveState d2)")
  have r3: "requests d3 = requests d" using requests_open_temp [of io "saveState d2"] r2 unfolding o by simp
  have body: "start_body pf io d =
      (case r of Some e \<Rightarrow> (d1, Some e) | None \<Rightarrow>
        (case r2 of Some e \<Rightarrow> (d2, Some e) | None \<Rightarrow>
          (case r3 of Some e \<Rightarrow> (d3, Some e) | None \<Rightarrow> transfer io d3)))"
    using p e o by (simp add: start_body_def and_then_def Let_def split: option.splits)
  have "requests_for i (fst (start_body pf io d)) \<le> requests_for i d + 11"
    using same [OF r1] same [OF r2] same [OF r3] tr [OF r3]
    by (simp add: body split: option.splits)
  moreover have "requests (start pf io d) = requests (fst (start_body pf io d))"
    by (cases "start_body pf io d") (simp add: start_def split: option.splits)
  ultimately show ?thesis by (simp add: requests_for_def)
qed




section \<open>The controller: what start() leaves alone\<close>

lemma ident_stream_loop [simp]:
  "ident (fst (stream_loop index items fin pos d)) = ident d"
proof (induction index items fin pos d rule: stream_loop.induct)
  case (4 index len now pw rest fin pos d)
  have upd: "ident (x\<lparr>downloadedBytesPerChunk := v\<rparr>) = ident x"
            "ident (x\<lparr>writes := w\<rparr>) = ident x" for x :: Downloader and v w
    by (simp_all add: ident_def)
  show ?case
  proof (cases "aborted d")
    case True then show ?thesis by simp
  next
    case False
    then show ?thesis using "4.IH" by (simp add: Let_def upd)
  qed
qed simp_all

lemma ident_downloadChunk [simp]:
  "ident (fst (downloadChunk att index s e d)) = ident d"
proof -
  have upd: "ident (x\<lparr>requests := v\<rparr>) = ident x" for x :: Downloader and v
    by (simp add: ident_def)
  show ?thesis by (simp add: downloadChunk_def Let_def upd split: response.splits)
qed

lemma ident_retry [simp]:
  "ident (fst (downloadChunkWithRetry net index s e attempt d)) = ident d"
proof (induction net index s e attempt d rule: downloadChunkWithRetry.induct)
  case (1 net index s e attempt d)
  note unfold = downloadChunkWithRetry.simps [of net index s e attempt d]
  obtain d1 r where dc: "downloadChunk (net attempt) index s e d = (d1, r)"
    by (cases "downloadChunk (net attempt) index s e d")
  have d1: "ident d1 = ident d"
    using ident_downloadChunk [of "net attempt" index s e d] dc by simp
  show ?case
  proof (cases "\<not> aborted d \<and> r \<noteq> None \<and> \<not> aborted d1 \<and> attempt \<le> maxRetries")
    case True
    then obtain err where r: "r = Some err" by auto
    from True r have "ident (fst (downloadChunkWithRetry net index s e (attempt + 1)
                         (suspended (pause_in_backoff (net attempt)) d1)))
                      = ident (suspended (pause_in_backoff (net attempt)) d1)"
      using "1.IH" [OF _ dc [symmetric] r] by simp
    then show ?thesis using True r dc d1 by (simp add: unfold)
  next
    case False
    then show ?thesis using dc d1 by (auto simp add: unfold split: option.splits)
  qed
qed

lemma ident_run_workers [simp]:
  "ident (fst (run_workers net ws d)) = ident d"
proof (induction net ws d rule: run_workers.induct)
  case (2 net i currentStart endB rest d)
  obtain d1 r where w: "downloadChunkWithRetry (net i) i currentStart endB 1 d = (d1, r)"
    by (cases "downloadChunkWithRetry (net i) i currentStart endB 1 d")
  have d1: "ident d1 = ident d"
    using ident_retry [of "net i" i currentStart endB 1 d] unfolding w by simp
  show ?case
  proof (cases r)
    case None
    then show ?thesis using "2.IH" [OF w [symmetric]] w d1 by simp
  next
    case (Some err)
    then show ?thesis using w d1 by simp
  qed
qed simp

lemma ident_and_then:
  assumes "ident (fst r) = ident d" and "\<And>x. ident x = ident d \<Longrightarrow> ident (fst (f x)) = ident d"
  shows "ident (fst (and_then r f)) = ident d"
  using assms by (cases r) (auto simp: and_then_def split: option.splits)

lemma ident_fs [simp]:
  "ident (fst (fs_sync c outcome d)) = ident d"
  "ident (fst (fs_await c aoutcome d)) = ident d"
  by (simp_all add: fs_sync_def fs_await_def)

lemma ident_ensure_dirs [simp]: "ident (fst (ensure_dirs io d)) = ident d"
  unfolding ensure_dirs_def by (rule ident_and_then) auto

lemma ident_open_temp [simp]: "ident (fst (open_temp io d)) = ident d"
proof -
  obtain d1 r where o: "fs_await (OpenFile (tempFilePath d) ''r+'') (io_open_rplus io) d = (d1, r)"
    by (cases "fs_await (OpenFile (tempFilePath d) ''r+'') (io_open_rplus io) d")
  have "ident d1 = ident d" using ident_fs(2) [of "OpenFile (tempFilePath d) ''r+''" "io_open_rplus io" d] o by simp
  then show ?thesis using o by (simp add: open_temp_def split: option.splits)
qed

lemma ident_finalize [simp]: "ident (fst (finalize io d)) = ident d"
  unfolding finalize_def
  by (auto intro!: ident_and_then)

lemma ident_inner_catch [simp]: "ident (fst (inner_catch io err d)) = ident d"
  unfolding inner_catch_def by (rule ident_and_then) auto

lemma ident_downloadParallel [simp]: "ident (fst (downloadParallel net d)) = ident d"
  by (simp add: downloadParallel_def)

lemma ident_transfer [simp]: "ident (fst (transfer io d)) = ident d"
proof -
  let ?r = "and_then (downloadParallel (io_net io) d)
             (\<lambda>d1. and_then (fs_await CloseFile (io_close io) d1) (finalize io))"
  have 1: "ident (fst ?r) = ident d"
    by (intro ident_and_then) auto
  obtain d' r where r: "?r = (d', r)" by (cases ?r)
  then have "ident d' = ident d" using 1 by simp
  then show ?thesis using r by (simp add: transfer_def split: option.splits)
qed

text \<open>After the probe, start() leaves the identity fields alone.\<close>

lemma ident_start:
  "ident (start pf io d) =
     ident (fst (probe pf io (d\<lparr>isPaused := False, aborted := False, startTime := io_now io,
                                lastTickTime := io_now io\<rparr>)))"
proof -
  let ?d0 = "d\<lparr>isPaused := False, aborted := False, startTime := io_now io, lastTickTime := io_now io\<rparr>"
  obtain d1 r where p: "probe pf io ?d0 = (d1, r)" by (cases "probe pf io ?d0")
  have body: "ident (fst (start_body pf io d)) = ident d1"
  proof (cases r)
    case (Some e)
    then show ?thesis using p by (simp add: start_body_def Let_def and_then_def)
  next
    case None
    have "ident (fst (and_then
              (ensure_dirs io (emit (EvStart (totalBytes d1) (fileName d1) (uuid d1)) d1))
              (\<lambda>d2. and_then (open_temp io (saveState d2)) (transfer io)))) = ident d1"
      by (intro ident_and_then) auto
    then show ?thesis using p None by (simp add: start_body_def Let_def and_then_def)
  qed
  obtain d' r' where b: "start_body pf io d = (d', r')" by (cases "start_body pf io d")
  then have "ident (start pf io d) = ident d'"
    by (simp add: start_def split: option.splits)
  then show ?thesis using body b p by simp
qed

lemma ident_fields:
  "ident a = ident b \<Longrightarrow>
     fileName a = fileName b \<and> finalFilePath a = finalFilePath b \<and>
     tempFilePath a = tempFilePath b \<and> outputDir a = outputDir b"
  by (simp add: ident_def)

lemma new_Downloader_fileName:
  "new_Downloader pf now u out opts = Inr d \<Longrightarrow>
   fileName d = (case opt_fileName opts of
                   None \<Rightarrow> getFileNameFromUrl (url_pathname pf) u
                 | Some s \<Rightarrow> if s = [] then getFileNameFromUrl (url_pathname pf) u else s)"
  by (auto simp: new_Downloader_def Let_def updatePaths_def split: option.splits sum.splits)

lemma probe_refines:
  assumes "totalBytes d = 0" "io_probe io = ProbeOk (Some cd) cl" "match_filename cd = Some g"
  shows "fileName (start pf io d) = sanitizeFileName g"
    "finalFilePath (start pf io d) = path_join pf (outputDir d) (sanitizeFileName g)"
    "tempFilePath (start pf io d) = path_join pf (outputDir d) (sanitizeFileName g) @ ''.part''"
proof -
  let ?d0 = "d\<lparr>isPaused := False, aborted := False, startTime := io_now io, lastTickTime := io_now io\<rparr>"
  let ?p = "fst (probe pf io ?d0)"
  have "fileName ?p = sanitizeFileName g \<and>
        finalFilePath ?p = path_join pf (outputDir d) (sanitizeFileName g) \<and>
        tempFilePath ?p = path_join pf (outputDir d) (sanitizeFileName g) @ ''.part''"
    using assms
    by (simp add: probe_def Let_def updatePaths_def suspended_def pause_def emit_def saveState_def
          split: option.splits)
  then show "fileName (start pf io d) = sanitizeFileName g"
    "finalFilePath (start pf io d) = path_join pf (outputDir d) (sanitizeFileName g)"
    "tempFilePath (start pf io d) = path_join pf (outputDir d) (sanitizeFileName g) @ ''.part''"
    using ident_fields [OF ident_start [of pf io d]] by simp_all
qed

lemma probe_keeps:
  assumes "totalBytes d \<noteq> 0 \<or> (\<exists>m. io_probe io = ProbeFails m) \<or> (\<exists>cl. io_probe io = ProbeOk None cl)
           \<or> (\<exists>cd cl. io_probe io = ProbeOk (Some cd) cl \<and> match_filename cd = None)"
  shows "fileName (start pf io d) = fileName d \<and> finalFilePath (start pf io d) = finalFilePath d
         \<and> tempFilePath (start pf io d) = tempFilePath d"
proof -
  let ?d0 = "d\<lparr>isPaused := False, aborted := False, startTime := io_now io, lastTickTime := io_now io\<rparr>"
  let ?p = "fst (probe pf io ?d0)"
  have "fileName ?p = fileName d \<and> finalFilePath ?p = finalFilePath d \<and> tempFilePath ?p = tempFilePath d"
    using assms
    by (auto simp add: probe_def Let_def suspended_def pause_def emit_def saveState_def
          split: option.splits probe_result.splits)
  then show ?thesis using ident_fields [OF ident_start [of pf io d]] by simp
qed


text \<open>
  C5, as the code has it. The constructor takes the caller's \<open>fileName\<close> when it is given
  and not empty, else the name derived from the URL (its sanitised last path segment, or
  \<^verbatim>\<open>downloaded_file\<close>). When the probe runs (the size is unknown) and its response has a
  \<^verbatim>\<open>Content-Disposition\<close> header that the pattern matches, start() replaces whatever name
  the downloader has, the caller's included, by the sanitised server name, and the final
  and temp paths are built from it. In every other case start() keeps the name and the
  paths. So the order is: Content-Disposition of a probe that runs, then the caller's
  name, then the URL, then the literal.
\<close>

theorem fileName_priority:
  "(new_Downloader pf now u out opts = Inr d0 \<longrightarrow>
      fileName d0 = (case opt_fileName opts of
                       None \<Rightarrow> getFileNameFromUrl (url_pathname pf) u
                     | Some s \<Rightarrow> if s = [] then getFileNameFromUrl (url_pathname pf) u else s))
   \<and> (totalBytes d = 0 \<and> io_probe io = ProbeOk (Some cd) cl \<and> match_filename cd = Some g \<longrightarrow>
        fileName (start pf io d) = sanitizeFileName g
        \<and> finalFilePath (start pf io d) = path_join pf (outputDir d) (sanitizeFileName g)
        \<and> tempFilePath (start pf io d) = path_join pf (outputDir d) (sanitizeFileName g) @ ''.part'')
   \<and> (totalBytes d \<noteq> 0 \<or> (\<exists>m. io_probe io = ProbeFails m) \<or> (\<exists>cl'. io_probe io = ProbeOk None cl')
        \<or> (\<exists>cd' cl'. io_probe io = ProbeOk (Some cd') cl' \<and> match_filename cd' = None) \<longrightarrow>
        fileName (start pf io d) = fileName d \<and> finalFilePath (start pf io d) = finalFilePath d
        \<and> tempFilePath (start pf io d) = tempFilePath d)"
  using new_Downloader_fileName [of pf now u out opts d0] probe_refines [of d io cd cl g pf]
    probe_keeps [of d io pf]
  by blast


text \<open>C5, witness: for \<^verbatim>\<open>http://h/d\<close>, no caller name and a probe answering
  \<^verbatim>\<open>filename="report final.pdf"\<close>, the file is \<^verbatim>\<open>report_final.pdf\<close> and the temp file
  \<^verbatim>\<open>out/report_final.pdf.part\<close>.\<close>

theorem fileName_priority_witness:
  "totalBytes report_job = 0
   \<and> match_filename report_disposition = Some ''report final.pdf''
   \<and> fileName report_job = ''d''
   \<and> fileName run_report = ''report_final.pdf''
   \<and> tempFilePath run_report = ''out/report_final.pdf.part''"
proof -
  let ?io = "io_ok\<lparr>io_probe := ProbeOk (Some report_disposition) (Some 10)\<rparr>"
  have t: "totalBytes report_job = 0" by code_simp
  have o: "outputDir report_job = ''out''" by code_simp
  have n: "fileName report_job = ''d''" by code_simp
  have m: "match_filename report_disposition = Some ''report final.pdf''" by code_simp
  have s: "sanitizeFileName ''report final.pdf'' = ''report_final.pdf''" by code_simp
  have p: "io_probe ?io = ProbeOk (Some report_disposition) (Some 10)" by simp
  have j: "path_join pf0 ''out'' ''report_final.pdf'' = ''out/report_final.pdf''"
    by (simp add: pf0_def)
  from fileName_priority [of pf0 0 "''x''" "''out''" opts0 report_job report_job ?io
      report_disposition "Some 10" "''report final.pdf''"] t p m
  have "fileName (start pf0 ?io report_job) = sanitizeFileName ''report final.pdf''
        \<and> tempFilePath (start pf0 ?io report_job)
            = path_join pf0 (outputDir report_job) (sanitizeFileName ''report final.pdf'') @ ''.part''"
    by blast
  then show ?thesis using t m n unfolding s o j run_report_def by simp
qed

text \<open>C5, counterexample: the caller asked for \<^verbatim>\<open>mine.bin\<close>, the probe answered
  \<^verbatim>\<open>filename="server.bin"\<close>; the downloader ends with the server's name in its file name
  and in both paths.\<close>

theorem caller_name_overridden_counterexample:
  "fileName named_job = ''mine.bin''
   \<and> fileName run_named = ''server.bin''
   \<and> finalFilePath run_named = ''out/server.bin''
   \<and> tempFilePath run_named = ''out/server.bin.part''
   \<and> fileName run_named \<noteq> ''mine.bin''"
  by code_simp

text \<open>
  C8. Let the size be unknown (\<open>totalBytes = 0\<close>) and let the probe's response have no
  \<^verbatim>\<open>Content-Length\<close>. Then start() ends at once: it issues no ranged request, writes
  nothing, makes no file-system call (in particular it does not open the temp file), and
  emits exactly one event, the error with the message \<^verbatim>\<open>Cannot determine file size.\<close> (the
  literal of line 137); the size stays unknown and nothing is retried. If the caller
  paused while the probe was awaited, the error event is suppressed: the only event and
  the only file-system call are those of \<open>pause\<close> itself.
\<close>

theorem start_without_size:
  assumes "totalBytes d = 0" and "io_probe io = ProbeOk cd None"
  shows "emitted (start pf io d) =
           emitted d @ (if io_probe_paused io then [EvPaused]
                        else [EvError ''Cannot determine file size.''])
         \<and> requests (start pf io d) = requests d
         \<and> writes (start pf io d) = writes d
         \<and> fs_calls (start pf io d) =
             fs_calls d @ (if io_probe_paused io
                           then [WriteFile (stateFilePath d) (current_state d)] else [])
         \<and> totalBytes (start pf io d) = 0"
  using assms
  by (simp add: start_def start_body_def probe_def and_then_def Let_def suspended_def pause_def
        emit_def saveState_def current_state_def updatePaths_def split: option.splits)

text \<open>C8, witness: a job of unknown size over 4 connections whose probe has no size.\<close>

theorem start_without_size_witness:
  "totalBytes (job 0 4) = 0
   \<and> io_probe (io_ok\<lparr>io_probe := ProbeOk None None\<rparr>) = ProbeOk None None
   \<and> emitted run_no_size = [EvError ''Cannot determine file size.'']
   \<and> requests run_no_size = [] \<and> writes run_no_size = [] \<and> fs_calls run_no_size = []"
proof -
  let ?io = "io_ok\<lparr>io_probe := ProbeOk None None\<rparr>"
  have t: "totalBytes (job 0 4) = 0" by code_simp
  have p: "io_probe ?io = ProbeOk None None" by simp
  have q: "\<not> io_probe_paused ?io" by (simp add: io_ok_def)
  have e: "emitted (job 0 4) = []" "requests (job 0 4) = []" "writes (job 0 4) = []"
    "fs_calls (job 0 4) = []" by code_simp+
  show ?thesis
    using start_without_size [OF t p, of pf0] q e t unfolding run_no_size_def by simp
qed

section \<open>The controller: the events of a run\<close>

lemma advances_same:
  "emitted d' = emitted d \<Longrightarrow> aborted d' = aborted d \<Longrightarrow> advances d d'"
  by (simp add: advances_def)

lemma advances_refl [simp]: "advances d d"
  by (simp add: advances_same)

lemma advances_trans:
  assumes "advances a b" and "advances b c"
  shows "advances a c"
proof -
  from assms(1) obtain es where
    1: "emitted b = emitted a @ es" "\<forall>e \<in> set es. \<not> is_start e \<and> \<not> is_outcome e"
       "aborted a \<longrightarrow> aborted b" "\<not> aborted b \<longrightarrow> EvPaused \<notin> set es"
    unfolding advances_def by blast
  from assms(2) obtain fs where
    2: "emitted c = emitted b @ fs" "\<forall>e \<in> set fs. \<not> is_start e \<and> \<not> is_outcome e"
       "aborted b \<longrightarrow> aborted c" "\<not> aborted c \<longrightarrow> EvPaused \<notin> set fs"
    unfolding advances_def by blast
  have "emitted c = emitted a @ (es @ fs)" using 1(1) 2(1) by simp
  moreover have "\<forall>e \<in> set (es @ fs). \<not> is_start e \<and> \<not> is_outcome e" using 1(2) 2(2) by auto
  moreover have "aborted a \<longrightarrow> aborted c" using 1(3) 2(3) by blast
  moreover have "\<not> aborted c \<longrightarrow> EvPaused \<notin> set (es @ fs)" using 1(4) 2(3) 2(4) by auto
  ultimately show ?thesis unfolding advances_def by blast
qed

lemma advances_pause [simp]: "advances d (pause d)"
  unfolding advances_def
  by (intro exI [of _ "[EvPaused]"]) (simp add: pause_def emit_def saveState_def)

lemma advances_suspended [simp]: "advances d (suspended b d)"
  by (simp add: suspended_def)

lemma advances_progress [simp]: "advances d (checkAndEmitProgress now d)"
proof (cases "now - lastTickTime d > 1000")
  case False
  then show ?thesis by (simp add: checkAndEmitProgress_def)
next
  case True
  let ?e = "EvProgress (sum_cells (Some 0) (downloadedBytesPerChunk d)) (totalBytes d) (uuid d)"
  have "emitted (checkAndEmitProgress now d) = emitted d @ [?e]"
       "aborted (checkAndEmitProgress now d) = aborted d"
    using True by (simp_all add: checkAndEmitProgress_def emitProgress_def emit_def saveState_def Let_def)
  then show ?thesis unfolding advances_def by (intro exI [of _ "[?e]"]) simp
qed

lemma advances_fs_call [simp]: "advances d (fs_call c d)" "advances d (saveState d)"
  by (simp_all add: advances_same fs_call_def saveState_def)

lemma advances_stream_loop [simp]:
  "advances d (fst (stream_loop index items fin pos d))"
proof (induction index items fin pos d rule: stream_loop.induct)
  case (3 index rest fin currentPos d)
  show ?case using advances_trans [OF advances_pause "3.IH"] by simp
next
  case (4 index len now pw rest fin pos d)
  show ?case
  proof (cases "aborted d")
    case True then show ?thesis by simp
  next
    case False
    let ?d0 = "d\<lparr>writes := writes d @ [(index, pos, len)]\<rparr>"
    let ?d1 = "suspended pw ?d0"
    let ?d2 = "?d1\<lparr>downloadedBytesPerChunk := add_downloaded index len (downloadedBytesPerChunk ?d1)\<rparr>"
    let ?d3 = "checkAndEmitProgress now ?d2"
    have a0: "advances d ?d0" by (simp add: advances_same)
    have a1: "advances ?d0 ?d1" by simp
    have a2: "advances ?d1 ?d2" by (simp add: advances_same)
    have a3: "advances ?d2 ?d3" by simp
    have a4: "advances ?d3 (fst (stream_loop index rest fin (pos + int len) ?d3))"
      using "4.IH" [OF False refl refl refl] by simp
    have "advances d (fst (stream_loop index rest fin (pos + int len) ?d3))"
      using a0 a1 a2 a3 a4 by (blast intro: advances_trans)
    then show ?thesis using False by (simp add: Let_def)
  qed
qed simp_all

lemma advances_downloadChunk [simp]:
  "advances d (fst (downloadChunk att index s e d))"
proof -
  let ?d0 = "d\<lparr>requests := requests d @ [(index, s, e)]\<rparr>"
  let ?d1 = "suspended (pause_in_request att) ?d0"
  have a: "advances d ?d1"
    by (rule advances_trans [of _ ?d0]) (simp_all add: advances_same)
  show ?thesis
  proof (cases "response att")
    case (RequestFailed m)
    then show ?thesis using a by (simp add: downloadChunk_def Let_def)
  next
    case (Streaming items fin)
    then show ?thesis
      using advances_trans [OF a advances_stream_loop [of ?d1 index items fin s]]
      by (simp add: downloadChunk_def Let_def)
  qed
qed

lemma advances_retry [simp]:
  "advances d (fst (downloadChunkWithRetry net index s e attempt d))"
proof (induction net index s e attempt d rule: downloadChunkWithRetry.induct)
  case (1 net index s e attempt d)
  note unfold = downloadChunkWithRetry.simps [of net index s e attempt d]
  obtain d1 r where dc: "downloadChunk (net attempt) index s e d = (d1, r)"
    by (cases "downloadChunk (net attempt) index s e d")
  have d1: "advances d d1"
    using advances_downloadChunk [of d "net attempt" index s e] unfolding dc by simp
  show ?case
  proof (cases "\<not> aborted d \<and> r \<noteq> None \<and> \<not> aborted d1 \<and> attempt \<le> maxRetries")
    case True
    then obtain err where r: "r = Some err" by auto
    let ?d2 = "suspended (pause_in_backoff (net attempt)) d1"
    from True r have "advances ?d2 (fst (downloadChunkWithRetry net index s e (attempt + 1) ?d2))"
      using "1.IH" [OF _ dc [symmetric] r] by simp
    then have "advances d (fst (downloadChunkWithRetry net index s e (attempt + 1) ?d2))"
      using d1 advances_suspended [of d1 "pause_in_backoff (net attempt)"]
      by (blast intro: advances_trans)
    then show ?thesis using True r dc by (simp add: unfold)
  next
    case False
    then show ?thesis using dc d1 by (auto simp add: unfold split: option.splits)
  qed
qed

lemma advances_run_workers [simp]:
  "advances d (fst (run_workers net ws d))"
proof (induction net ws d rule: run_workers.induct)
  case (2 net i currentStart endB rest d)
  obtain d1 r where w: "downloadChunkWithRetry (net i) i currentStart endB 1 d = (d1, r)"
    by (cases "downloadChunkWithRetry (net i) i currentStart endB 1 d")
  have d1: "advances d d1"
    using advances_retry [of d "net i" i currentStart endB 1] unfolding w by simp
  show ?case
  proof (cases r)
    case None
    then show ?thesis using advances_trans [OF d1 "2.IH" [OF w [symmetric]]] w by simp
  next
    case (Some err)
    then show ?thesis using w d1 by simp
  qed
qed simp

lemma advances_fs [simp]:
  "advances d (fst (fs_sync c outcome d))"
  "advances d (fst (fs_await c aoutcome d))"
proof -
  show "advances d (fst (fs_sync c outcome d))" by (simp add: fs_sync_def)
  show "advances d (fst (fs_await c aoutcome d))"
    using advances_trans [OF advances_fs_call(1) advances_suspended]
    by (simp add: fs_await_def)
qed

lemma advances_and_then:
  assumes "advances d (fst r)" and "\<And>x. advances d x \<Longrightarrow> advances d (fst (f x))"
  shows "advances d (fst (and_then r f))"
  using assms by (cases r) (auto simp: and_then_def split: option.splits)

lemma advances_then: "advances d x \<Longrightarrow> advances x y \<Longrightarrow> advances d y"
  by (rule advances_trans)

lemma advances_ensure_dirs [simp]: "advances d (fst (ensure_dirs io d))"
  unfolding ensure_dirs_def
  by (rule advances_and_then) (auto intro: advances_then)

lemma advances_open_temp [simp]: "advances d (fst (open_temp io d))"
proof -
  obtain d1 r where o: "fs_await (OpenFile (tempFilePath d) ''r+'') (io_open_rplus io) d = (d1, r)"
    by (cases "fs_await (OpenFile (tempFilePath d) ''r+'') (io_open_rplus io) d")
  have a: "advances d d1"
    using advances_fs(2) [of d "OpenFile (tempFilePath d) ''r+''" "io_open_rplus io"] unfolding o by simp
  show ?thesis
  proof (cases r)
    case None then show ?thesis using o a by (simp add: open_temp_def)
  next
    case (Some e)
    then show ?thesis
      using o advances_trans [OF a advances_fs(2) [of d1 "OpenFile (tempFilePath d1) ''w''" "io_open_w io"]]
      by (simp add: open_temp_def)
  qed
qed

lemma advances_inner_catch [simp]: "advances d (fst (inner_catch io err d))"
proof -
  obtain d1 r where c: "fs_await CloseFile (io_close_in_catch io) d = (d1, r)"
    by (cases "fs_await CloseFile (io_close_in_catch io) d")
  have a: "advances d d1"
    using advances_fs(2) [of d CloseFile "io_close_in_catch io"] unfolding c by simp
  have p: "aborted d1 \<Longrightarrow> advances d1 (emit EvPaused d1)"
    unfolding advances_def by (intro exI [of _ "[EvPaused]"]) (simp add: emit_def)
  show ?thesis
    using c a advances_trans [OF a p]
    by (auto simp: inner_catch_def and_then_def split: option.splits)
qed

lemma finishes_advances: "advances d d' \<Longrightarrow> finishes d d'"
  unfolding finishes_def by blast

lemma advances_finishes: "advances d x \<Longrightarrow> finishes x y \<Longrightarrow> finishes d y"
  unfolding finishes_def by (blast intro: advances_trans)

lemma finishes_outcome:
  "advances d dm \<Longrightarrow> \<not> aborted dm \<Longrightarrow> is_outcome e \<Longrightarrow> finishes d (emit e dm)"
  unfolding finishes_def by blast

lemma fs_sync_aborted [simp]: "aborted (fst (fs_sync c outcome d)) = aborted d"
  by (simp add: fs_sync_def fs_call_def)

lemma finalize_shape:
  "finishes d (fst (finalize io d))"
  "snd (finalize io d) \<noteq> None \<Longrightarrow> advances d (fst (finalize io d))"
proof -
  have "finishes d (fst (finalize io d)) \<and>
        (snd (finalize io d) \<noteq> None \<longrightarrow> advances d (fst (finalize io d)))"
  proof (cases "\<not> isPaused d \<and> \<not> aborted d")
    case False
    then show ?thesis by (auto simp: finalize_def finishes_advances)
  next
    case True
    let ?a = "if io_final_exists io then fs_sync (Unlink (finalFilePath d)) (io_unlink_final io) d
              else (d, None)"
    obtain d1 r1 where a: "?a = (d1, r1)" by (cases ?a)
    have a1: "advances d d1" "aborted d1 = aborted d"
      using a by (auto split: if_splits simp: fs_sync_def fs_call_def advances_same)
    let ?b = "fs_sync (Rename (tempFilePath d1) (finalFilePath d1)) (io_rename io) d1"
    obtain d2 r2 where b: "?b = (d2, r2)" by (cases ?b)
    have a2: "advances d1 d2" "aborted d2 = aborted d1"
      using b by (auto simp: fs_sync_def fs_call_def advances_same)
    let ?c = "if io_state_exists io then fs_sync (Unlink (stateFilePath d2)) (io_unlink_state io) d2
              else (d2, None)"
    obtain d3 r3 where c: "?c = (d3, r3)" by (cases ?c)
    have a3: "advances d2 d3" "aborted d3 = aborted d2"
      using c by (auto split: if_splits simp: fs_sync_def fs_call_def advances_same)
    have d2: "advances d d2" using a1 a2 by (blast intro: advances_trans)
    have d3: "advances d d3" using d2 a3 by (blast intro: advances_trans)
    have nab: "\<not> aborted d3" using True a1 a2 a3 by simp
    have fin: "finalize io d =
        (case r1 of Some e \<Rightarrow> (d1, Some e) | None \<Rightarrow>
          (case r2 of Some e \<Rightarrow> (d2, Some e) | None \<Rightarrow>
            (case r3 of Some e \<Rightarrow> (d3, Some e) | None \<Rightarrow>
               (emit (EvComplete (finalFilePath d3)) d3, None))))"
      using True a b c by (simp add: finalize_def and_then_def split: option.splits)
    show ?thesis
      using a1(1) d2 d3 nab
      by (auto simp: fin finishes_advances finishes_outcome split: option.splits)
  qed
  then show "finishes d (fst (finalize io d))"
    "snd (finalize io d) \<noteq> None \<Longrightarrow> advances d (fst (finalize io d))" by blast+
qed

lemma transfer_shape:
  "finishes d (fst (transfer io d))"
  "snd (transfer io d) \<noteq> None \<Longrightarrow> advances d (fst (transfer io d))"
proof -
  obtain dA rA where A: "downloadParallel (io_net io) d = (dA, rA)"
    by (cases "downloadParallel (io_net io) d")
  have "fst (run_workers (io_net io) (planned d) d) = dA"
    using A by (simp add: downloadParallel_def)
  then have aA: "advances d dA"
    using advances_run_workers [of d "io_net io" "planned d"] by simp
  obtain dB rB where B: "fs_await CloseFile (io_close io) dA = (dB, rB)"
    by (cases "fs_await CloseFile (io_close io) dA")
  have aB: "advances d dB"
    using advances_fs(2) [of dA CloseFile "io_close io"] aA unfolding B by (auto intro: advances_trans)
  obtain dC rC where C: "finalize io dB = (dC, rC)" by (cases "finalize io dB")
  have fC: "finishes d dC" using finalize_shape(1) [of dB io] aB unfolding C
    by (auto intro: advances_finishes)
  have aC: "rC \<noteq> None \<Longrightarrow> advances d dC" using finalize_shape(2) [of io dB] aB unfolding C
    by (auto intro: advances_trans)
  have catch: "advances d x \<Longrightarrow> advances d (fst (inner_catch io err x))" for x err
    using advances_inner_catch [of x io err] by (blast intro: advances_trans)
  have tr: "transfer io d =
      (case rA of Some e \<Rightarrow> inner_catch io e dA | None \<Rightarrow>
        (case rB of Some e \<Rightarrow> inner_catch io e dB | None \<Rightarrow>
          (case rC of Some e \<Rightarrow> inner_catch io e dC | None \<Rightarrow> (dC, None))))"
    using A B C by (simp add: transfer_def and_then_def split: option.splits)
  have "finishes d (fst (transfer io d)) \<and>
        (snd (transfer io d) \<noteq> None \<longrightarrow> advances d (fst (transfer io d)))"
    using aA aB fC aC catch
    by (auto simp: tr finishes_advances split: option.splits)
  then show "finishes d (fst (transfer io d))"
    "snd (transfer io d) \<noteq> None \<Longrightarrow> advances d (fst (transfer io d))" by blast+
qed

lemma advances_probe [simp]: "advances d (fst (probe pf io d))"
proof (cases "totalBytes d = 0")
  case False
  then show ?thesis by (simp add: probe_def)
next
  case True
  let ?d1 = "suspended (io_probe_paused io) d"
  have a: "advances d ?d1" by simp
  have same: "emitted x = emitted ?d1 \<Longrightarrow> aborted x = aborted ?d1 \<Longrightarrow> advances d x" for x
    using advances_trans [OF a advances_same] by blast
  show ?thesis
    using True a
    by (auto simp add: probe_def Let_def updatePaths_def split: probe_result.splits option.splits
          intro!: same)
qed

text \<open>The run of start(), seen from the state with the fresh cancellation token.\<close>

lemma start_shape:
  fixes d io pf
  defines "d0 \<equiv> d\<lparr>isPaused := False, aborted := False, startTime := io_now io,
                    lastTickTime := io_now io\<rparr>"
  shows "\<exists>d1. advances d0 d1 \<and>
           ((snd (probe pf io d0) \<noteq> None \<and> finishes d1 (start pf io d)) \<or>
            (snd (probe pf io d0) = None \<and>
               (\<exists>ev. is_start ev \<and> finishes (emit ev d1) (start pf io d))))"
proof -
  obtain d1 r where p: "probe pf io d0 = (d1, r)" by (cases "probe pf io d0")
  have a1: "advances d0 d1" using advances_probe [of d0 pf io] unfolding p by simp
  show ?thesis
  proof (cases r)
    case (Some err)
    have "start pf io d = (if \<not> aborted d1 then emit (EvError (message err)) d1 else d1)"
      using p Some by (simp add: start_def start_body_def and_then_def Let_def d0_def)
    then have "finishes d1 (start pf io d)"
      by (auto simp: finishes_outcome finishes_advances)
    then show ?thesis using a1 p Some by (intro exI [of _ d1]) simp
  next
    case None
    let ?ev = "EvStart (totalBytes d1) (fileName d1) (uuid d1)"
    let ?ds = "emit ?ev d1"
    obtain d2 r2 where e: "ensure_dirs io ?ds = (d2, r2)" by (cases "ensure_dirs io ?ds")
    have a2: "advances ?ds d2" using advances_ensure_dirs [of ?ds io] unfolding e by simp
    obtain d3 r3 where o: "open_temp io (saveState d2) = (d3, r3)"
      by (cases "open_temp io (saveState d2)")
    have "advances (saveState d2) d3"
      using advances_open_temp [of "saveState d2" io] unfolding o by simp
    then have a3: "advances ?ds d3"
      using a2 advances_fs_call(2) [of d2] by (blast intro: advances_trans)
    obtain d4 r4 where t: "transfer io d3 = (d4, r4)" by (cases "transfer io d3")
    have f4: "finishes ?ds d4" using transfer_shape(1) [of d3 io] a3 unfolding t
      by (auto intro: advances_finishes)
    have a4: "r4 \<noteq> None \<Longrightarrow> advances ?ds d4" using transfer_shape(2) [of io d3] a3 unfolding t
      by (auto intro: advances_trans)
    have body: "start_body pf io d =
        (case r2 of Some e \<Rightarrow> (d2, Some e) | None \<Rightarrow>
          (case r3 of Some e \<Rightarrow> (d3, Some e) | None \<Rightarrow> (d4, r4)))"
      using p None e o t
      by (simp add: start_body_def and_then_def Let_def d0_def split: option.splits)
    have outer: "advances ?ds x \<Longrightarrow>
        finishes ?ds (if \<not> aborted x then emit (EvError (message err)) x else x)" for x err
      by (auto simp: finishes_outcome finishes_advances)
    have "finishes ?ds (start pf io d)"
      using a2 a3 f4 a4 outer
      by (auto simp: start_def body split: option.splits)
    moreover have "is_start ?ev" by simp
    ultimately have "\<exists>ev. is_start ev \<and> finishes (emit ev d1) (start pf io d)" by blast
    then show ?thesis using a1 p None by (intro exI [of _ d1]) simp
  qed
qed

lemma outcome_not_start: "is_outcome e \<Longrightarrow> \<not> is_start e"
  by (cases e) simp_all

lemma trace_shape:
  assumes a: "advances d0 d1" and s: "emitted ds = emitted d1 @ s" "aborted ds = aborted d1"
    and sk: "s = [] \<or> (\<exists>ev. is_start ev \<and> s = [ev])" and f: "finishes ds F"
  shows "\<exists>es. emitted F = emitted d0 @ es \<and> length (filter is_start es) \<le> 1 \<and>
           (\<forall>e \<in> set (butlast es). \<not> is_outcome e) \<and>
           (aborted F \<longrightarrow> (\<forall>e \<in> set es. \<not> is_outcome e)) \<and>
           (\<not> aborted F \<longrightarrow> EvPaused \<notin> set es) \<and>
           (s = [] \<longrightarrow> (\<forall>e \<in> set es. \<not> is_start e))"
proof -
  from a obtain es1 where
    1: "emitted d1 = emitted d0 @ es1" "\<forall>e \<in> set es1. \<not> is_start e \<and> \<not> is_outcome e"
       "aborted d0 \<longrightarrow> aborted d1" "\<not> aborted d1 \<longrightarrow> EvPaused \<notin> set es1"
    unfolding advances_def by blast
  from f obtain dm where
    dm: "advances ds dm" "F = dm \<or> (\<not> aborted dm \<and> (\<exists>e. is_outcome e \<and> F = emit e dm))"
    unfolding finishes_def by blast
  from dm(1) obtain es2 where
    2: "emitted dm = emitted ds @ es2" "\<forall>e \<in> set es2. \<not> is_start e \<and> \<not> is_outcome e"
       "aborted ds \<longrightarrow> aborted dm" "\<not> aborted dm \<longrightarrow> EvPaused \<notin> set es2"
    unfolding advances_def by blast
  have s_start: "\<forall>e \<in> set s. is_start e" using sk by auto
  have s_len: "length s \<le> 1" using sk by auto
  have s_props: "\<forall>e \<in> set s. \<not> is_outcome e \<and> e \<noteq> EvPaused"
  proof
    fix e assume "e \<in> set s"
    then have "is_start e" using s_start by blast
    then show "\<not> is_outcome e \<and> e \<noteq> EvPaused" by (cases e) simp_all
  qed
  have mid: "emitted dm = emitted d0 @ (es1 @ s @ es2)" using 1(1) s(1) 2(1) by simp
  have f1: "filter is_start (es1 @ s @ es2) = s"
    using 1(2) 2(2) s_start by (simp add: filter_empty_conv)
  have no_out: "\<forall>e \<in> set (es1 @ s @ es2). \<not> is_outcome e" using 1(2) 2(2) s_props by auto
  have no_pause: "\<not> aborted dm \<Longrightarrow> EvPaused \<notin> set (es1 @ s @ es2)"
    using 1(4) 2(3) 2(4) s(2) s_props by auto
  from dm(2) show ?thesis
  proof
    assume F: "F = dm"
    have "\<forall>e \<in> set (butlast (es1 @ s @ es2)). \<not> is_outcome e"
      using no_out by (meson in_set_butlastD)
    then show ?thesis
      using F mid f1 s_len no_out no_pause 1(2) 2(2)
      by (intro exI [of _ "es1 @ s @ es2"]) auto
  next
    assume "\<not> aborted dm \<and> (\<exists>e. is_outcome e \<and> F = emit e dm)"
    then obtain e where e: "\<not> aborted dm" "is_outcome e" "F = emit e dm" by blast
    let ?es = "(es1 @ s @ es2) @ [e]"
    have E: "emitted F = emitted d0 @ ?es" using e(3) mid by (simp add: emit_def)
    have ab: "\<not> aborted F" using e by (simp add: emit_def)
    have ne: "e \<noteq> EvPaused" "\<not> is_start e" using e(2) outcome_not_start by auto
    have fs: "filter is_start ?es = s" using f1 ne by simp
    have bl: "\<forall>x \<in> set (butlast ?es). \<not> is_outcome x"
      using no_out by (simp only: butlast_snoc) 
    have np: "EvPaused \<notin> set ?es" using no_pause [OF e(1)] ne by auto
    have ns: "s = [] \<longrightarrow> (\<forall>x \<in> set ?es. \<not> is_start x)" using 1(2) 2(2) ne by auto
    have fl: "length (filter is_start ?es) \<le> 1" using fs s_len by (simp only:)
    show ?thesis
      using E ab fl bl np ns by (intro exI [of _ ?es]) blast
  qed
qed

lemma probe_fails:
  assumes "totalBytes d = 0" "\<forall>cd n. io_probe io \<noteq> ProbeOk cd (Some n)"
  shows "snd (probe pf io (d\<lparr>isPaused := False, aborted := False, startTime := t, lastTickTime := t\<rparr>)) \<noteq> None"
  using assms by (auto simp: probe_def Let_def split: probe_result.splits option.splits)

lemma start_trace:
  "\<exists>es. emitted (start pf io d) = emitted d @ es \<and> length (filter is_start es) \<le> 1 \<and>
        (\<forall>e \<in> set (butlast es). \<not> is_outcome e) \<and>
        (aborted (start pf io d) \<longrightarrow> (\<forall>e \<in> set es. \<not> is_outcome e)) \<and>
        (\<not> aborted (start pf io d) \<longrightarrow> EvPaused \<notin> set es) \<and>
        (totalBytes d = 0 \<and> (\<forall>cd n. io_probe io \<noteq> ProbeOk cd (Some n)) \<longrightarrow>
           (\<forall>e \<in> set es. \<not> is_start e))"
proof -
  let ?d0 = "d\<lparr>isPaused := False, aborted := False, startTime := io_now io, lastTickTime := io_now io\<rparr>"
  from start_shape [where d = d and io = io and pf = pf] obtain d1 where
    a: "advances ?d0 d1" and
    c: "(snd (probe pf io ?d0) \<noteq> None \<and> finishes d1 (start pf io d)) \<or>
        (snd (probe pf io ?d0) = None \<and>
           (\<exists>ev. is_start ev \<and> finishes (emit ev d1) (start pf io d)))"
    by blast
  have e0: "emitted ?d0 = emitted d" by simp
  from c show ?thesis
  proof
    assume "snd (probe pf io ?d0) \<noteq> None \<and> finishes d1 (start pf io d)"
    then have f: "finishes d1 (start pf io d)" by blast
    from trace_shape [OF a _ _ _ f, of "[]"] show ?thesis unfolding e0 by auto
  next
    assume "snd (probe pf io ?d0) = None \<and>
           (\<exists>ev. is_start ev \<and> finishes (emit ev d1) (start pf io d))"
    then obtain ev where ok: "snd (probe pf io ?d0) = None"
      and ev: "is_start ev" "finishes (emit ev d1) (start pf io d)" by blast
    have s: "emitted (emit ev d1) = emitted d1 @ [ev]" "aborted (emit ev d1) = aborted d1"
      by (simp_all add: emit_def)
    have nf: "\<not> (totalBytes d = 0 \<and> (\<forall>cd n. io_probe io \<noteq> ProbeOk cd (Some n)))"
      using ok probe_fails [of d io pf "io_now io"] by blast
    from trace_shape [OF a s _ ev(2)] ev(1) nf show ?thesis unfolding e0 by auto
  qed
qed




section \<open>The resume record: proofs\<close>

lemma seg_size_nonneg:
  assumes T: "0 \<le> totalBytes d" and N: "1 \<le> numConnections d" and i: "i < nat (numConnections d)"
  shows "0 \<le> seg_end d i - seg_start d i + 1"
proof (cases "int i = numConnections d - 1")
  case False
  then show ?thesis using chunk_bounds(1) [OF T N] by (simp add: seg_end_def)
next
  case True
  have "(numConnections d - 1) * chunkSize d \<le> numConnections d * chunkSize d"
    using chunk_bounds(1) [OF T N] by (simp add: algebra_simps)
  also have "\<dots> \<le> totalBytes d" by (rule chunk_bounds(2) [OF T N])
  finally show ?thesis using True by (simp add: seg_end_def seg_start_def)
qed

lemma zeros_ok:
  assumes T: "0 \<le> totalBytes d" and N: "1 \<le> numConnections d"
    and z: "downloadedBytesPerChunk d = replicate (nat (numConnections d)) (Num 0)"
  shows "progress_ok d"
  using N seg_size_nonneg [OF T N]
  by (auto simp: progress_ok_def z list_all_iff)


lemma new_Downloader_Inr:
  assumes "new_Downloader pf now u out opts = Inr d"
  shows "(case opt_downloadedBytesPerChunk opts of
            None \<Rightarrow> new_Array_fill0 (numConnections d)
          | Some v \<Rightarrow> Inr v) = Inr (downloadedBytesPerChunk d)"
    and "numConnections d = (case opt_numConnections opts of None \<Rightarrow> 8 | Some k \<Rightarrow> if k = 0 then 8 else k)"
    and "totalBytes d = (case opt_totalBytes opts of None \<Rightarrow> 0 | Some t \<Rightarrow> t)"
proof -
  let ?n = "case opt_numConnections opts of None \<Rightarrow> 8 | Some k \<Rightarrow> if k = 0 then 8 else k"
  let ?vec = "case opt_downloadedBytesPerChunk opts of None \<Rightarrow> new_Array_fill0 ?n | Some v \<Rightarrow> Inr v"
  obtain v where v: "?vec = Inr v"
    using assms by (cases ?vec) (simp_all add: new_Downloader_def Let_def)
  have d: "downloadedBytesPerChunk d = v \<and> numConnections d = ?n \<and>
           totalBytes d = (case opt_totalBytes opts of None \<Rightarrow> 0 | Some t \<Rightarrow> t)"
    using assms unfolding new_Downloader_def Let_def v updatePaths_def by auto
  show "(case opt_downloadedBytesPerChunk opts of
            None \<Rightarrow> new_Array_fill0 (numConnections d)
          | Some v \<Rightarrow> Inr v) = Inr (downloadedBytesPerChunk d)"
  proof -
    from d have e1: "downloadedBytesPerChunk d = v" and e2: "numConnections d = ?n" by simp_all
    show ?thesis unfolding e1 e2 by (rule v)
  qed
  show "numConnections d = ?n" using d by simp
  show "totalBytes d = (case opt_totalBytes opts of None \<Rightarrow> 0 | Some t \<Rightarrow> t)" using d by simp
qed

lemma new_Downloader_vector:
  assumes "new_Downloader pf now u out opts = Inr d"
  shows "opt_downloadedBytesPerChunk opts = None \<Longrightarrow>
           downloadedBytesPerChunk d = replicate (nat (numConnections d)) (Num 0) \<and>
           1 \<le> numConnections d"
    and "opt_downloadedBytesPerChunk opts = Some v \<Longrightarrow> downloadedBytesPerChunk d = v"
proof -
  note 1 = new_Downloader_Inr(1) [OF assms] and 2 = new_Downloader_Inr(2) [OF assms]
  show "opt_downloadedBytesPerChunk opts = Some v \<Longrightarrow> downloadedBytesPerChunk d = v"
    using 1 by simp
  assume n: "opt_downloadedBytesPerChunk opts = None"
  have "numConnections d \<noteq> 0" using 2 by (simp split: option.splits if_splits)
  then show "downloadedBytesPerChunk d = replicate (nat (numConnections d)) (Num 0) \<and>
           1 \<le> numConnections d"
    using 1 n by (auto simp: new_Array_fill0_def split: if_splits)
qed




end
